theory Spec2Isabelle
  imports Complex_Main "HOL-Library.Multiset" "HOL-Library.Product_Lexorder"
begin

section \<open>Data model of solver.py\<close>

text \<open>
  The solver works on Python objects that are shared and mutated in place: Pallet objects
  and the \<^verbatim>\<open>pallet\<close> back-reference of every OrderLine. Pallets therefore live in an
  explicit store, addressed by references; two pallets are the same object exactly when
  their references are equal. Weights, volumes and savings are Python numbers, taken here
  as unbounded integers. The random draws, \<^verbatim>\<open>beta\<close> and the clock are Python floats; a
  float is taken as the real number it denotes. The float operations of the selector
  \<^verbatim>\<open>_bra\<close> (a subtraction, the logarithm of the C library and a division) return what the
  platform computes, which is a rounded result, so they are taken from outside. The distance
  matrix is a numpy array: an entry is a number of the type of the array, again taken as
  the real number it denotes, and the addition of two such numbers is the one of that type
  (of 64-bit integers, which wraps around, or of floats, which rounds), taken from outside
  as well.
\<close>

datatype error = AssertionError | ValueError | ZeroDivisionError | IndexError | AttributeError

type_synonym ref = nat

text \<open>A physical case; only its \<^verbatim>\<open>strength\<close> is read by the solver.\<close>

record pcase =
  strength :: int

text \<open>
  The immutable attributes of an OrderLine object. The field \<open>oid\<close> stands for the
  identity of the object, so that equality of records is identity of objects. The mutable
  attribute \<^verbatim>\<open>pallet\<close> is kept in the store (\<open>pallet_of\<close> below).
\<close>

record orderline =
  oid :: nat
  location :: nat
  ol_weight :: int
  ol_volume :: int
  ol_cases :: "pcase list"

text \<open>An edge of the savings graph; \<open>endp\<close> is the attribute \<^verbatim>\<open>end\<close> of the source.\<close>

record edge =
  origin :: orderline
  endp :: orderline
  saving :: int

text \<open>
  A dictionary keeps its insertion order: the layer assignment is an association list, in
  insertion order.
\<close>

type_synonym layers = "(orderline \<times> int) list"

record pallet =
  maxWeight :: int
  maxVolume :: int
  weight :: int
  volume :: int
  orderlines :: "orderline set"
  cases :: "pcase list"
  layersMap :: layers
  active :: bool

text \<open>A two-dimensional array, as the list of its rows.\<close>

type_synonym matrix = "real list list"

text \<open>The attributes of the Solver object that no method changes.\<close>

record solver =
  s_orderlines :: "orderline list"
  s_edges :: "edge list"
  s_dists :: matrix
  pallet_size :: "int \<times> int \<times> int"
  pallet_max_weight :: int

text \<open>
  What the solver takes from outside: the packing procedure \<^verbatim>\<open>dubePacker\<close> of the
  module \<^verbatim>\<open>packing\<close> (a pure function of the receiving pallet and of the payload, an
  order line or another pallet), the volume that the Pallet constructor derives from the
  pallet size, the stream of values returned by \<^verbatim>\<open>random.random()\<close>, the stream
  of values returned by \<^verbatim>\<open>time.time()\<close>, the float operations of \<^verbatim>\<open>_bra\<close>
  (\<open>fsub x y\<close> is the float \<^verbatim>\<open>x - y\<close>, \<open>flog x\<close> the logarithm that the C library
  returns for a positive float, \<open>fdiv x y\<close> the float \<^verbatim>\<open>x / y\<close> for a divisor other than
  zero, a finite float for the two logarithms that \<^verbatim>\<open>_bra\<close> divides) and the addition
  \<open>num_add\<close> of the numbers of the distance matrix.
\<close>

record env =
  dubePacker :: "pallet \<Rightarrow> orderline + pallet \<Rightarrow> bool \<times> pcase list \<times> layers"
  sizeVolume :: "int \<times> int \<times> int \<Rightarrow> int"
  random :: "nat \<Rightarrow> real"
  time :: "nat \<Rightarrow> real"
  fsub :: "real \<Rightarrow> real \<Rightarrow> real"
  flog :: "real \<Rightarrow> real"
  fdiv :: "real \<Rightarrow> real \<Rightarrow> real"
  num_add :: "real \<Rightarrow> real \<Rightarrow> real"

text \<open>
  The mutable world: the store of pallets, the \<^verbatim>\<open>pallet\<close> attribute of every order
  line (\<open>None\<close> while it was never assigned), the next free reference, the number of
  random draws and of clock readings consumed so far, the attribute \<^verbatim>\<open>history\<close> of
  the solver, and the list of the calls made to the packing procedure (container and
  payload of each call, oldest first).
\<close>

record world =
  heap :: "ref \<Rightarrow> pallet"
  pallet_of :: "orderline \<Rightarrow> ref option"
  next_ref :: ref
  rng_pos :: nat
  clock_pos :: nat
  history :: "real list"
  packer_log :: "(pallet \<times> (orderline + pallet)) list"

section \<open>The biased selector\<close>

text \<open>
  \<^verbatim>\<open>math.log(x, base)\<close>: the logarithm of \<open>x\<close> is taken first, then that of the base,
  each raising for an argument that is not positive; the result is the float quotient of
  the two logarithms, which raises when the logarithm of the base is zero.
\<close>

definition py_log :: "env \<Rightarrow> real \<Rightarrow> real \<Rightarrow> error + real" where
  "py_log E x b =
     (if x \<le> 0 then Inl ValueError
      else if b \<le> 0 then Inl ValueError
      else if flog E b = 0 then Inl ZeroDivisionError
      else Inr (fdiv E (flog E x) (flog E b)))"

text \<open>\<^verbatim>\<open>int(x)\<close> of a float truncates towards zero.\<close>

definition py_int :: "real \<Rightarrow> int" where
  "py_int x = (if 0 \<le> x then \<lfloor>x\<rfloor> else \<lceil>x\<rceil>)"

text \<open>\<^verbatim>\<open>arr.pop(idx)\<close> for an index in range: the list without that position.\<close>

definition pop :: "'a list \<Rightarrow> nat \<Rightarrow> 'a list" where
  "pop arr idx = take idx arr @ drop (Suc idx) arr"

text \<open>
  One iteration of the loop of \<^verbatim>\<open>_bra\<close> with the draw \<open>u\<close>: the yielded element and
  the remaining pool.
\<close>

definition bra_next :: "env \<Rightarrow> real \<Rightarrow> real \<Rightarrow> 'a list \<Rightarrow> error + ('a \<times> 'a list)" where
  "bra_next E beta u arr =
     (case py_log E u (fsub E 1.0 beta) of
        Inl e \<Rightarrow> Inl e
      | Inr x \<Rightarrow>
          if length arr = 0 then Inl ZeroDivisionError
          else let idx = nat (py_int x mod int (length arr))
               in Inr (arr ! idx, pop arr idx))"

text \<open>
  Everything the generator yields when it is run to its end: \<open>n\<close> counts the iterations
  of \<^verbatim>\<open>range(L)\<close> that are left, \<open>k\<close> is the position in the stream of draws.
\<close>

fun bra_run :: "env \<Rightarrow> real \<Rightarrow> nat \<Rightarrow> 'a list \<Rightarrow> nat \<Rightarrow> error + 'a list" where
  "bra_run E beta 0 arr k = Inr []"
| "bra_run E beta (Suc n) arr k =
     (case bra_next E beta (random E k) arr of
        Inl e \<Rightarrow> Inl e
      | Inr (x, arr') \<Rightarrow>
          (case bra_run E beta n arr' (Suc k) of
             Inl e \<Rightarrow> Inl e
           | Inr ys \<Rightarrow> Inr (x # ys)))"

definition bra :: "env \<Rightarrow> 'a list \<Rightarrow> real \<Rightarrow> nat \<Rightarrow> error + 'a list" where
  "bra E array beta k = bra_run E beta (length array) array k"

text \<open>
  The selector can draw with \<open>beta\<close>: every call of \<^verbatim>\<open>math.log\<close> returns, that is every
  draw is above 0, and the float \<^verbatim>\<open>1.0 - beta\<close> is positive with a logarithm other than
  zero.
\<close>

definition log_returns :: "env \<Rightarrow> real \<Rightarrow> bool" where
  "log_returns E beta \<longleftrightarrow>
     (\<forall>i. 0 < random E i) \<and> 0 < fsub E 1 beta \<and> flog E (fsub E 1 beta) \<noteq> 0"

section \<open>Pallets and the packing procedure\<close>

text \<open>
  Modelled from the spec: the class \<^verbatim>\<open>Pallet\<close> of the module \<^verbatim>\<open>packing\<close> is not
  part of the source at hand. A new pallet has the fixed bounds \<open>maxWeight\<close> (the given
  maximum weight) and \<open>maxVolume\<close> (derived from the pallet size, by \<open>sizeVolume\<close>), no
  accumulated weight or volume, no order lines, no cases, an empty layer assignment, and
  is active.
\<close>

definition Pallet :: "env \<Rightarrow> int \<times> int \<times> int \<Rightarrow> int \<Rightarrow> pallet" where
  "Pallet E sz max_weight =
     \<lparr>maxWeight = max_weight, maxVolume = sizeVolume E sz, weight = 0, volume = 0,
      orderlines = {}, cases = [], layersMap = [], active = True\<rparr>"

text \<open>A call of \<^verbatim>\<open>dubePacker(container, payload)\<close>, recorded in the log of calls.\<close>

definition call_packer ::
  "env \<Rightarrow> pallet \<Rightarrow> orderline + pallet \<Rightarrow> world \<Rightarrow> (bool \<times> pcase list \<times> layers) \<times> world" where
  "call_packer E container payload w =
     (dubePacker E container payload,
      w\<lparr>packer_log := packer_log w @ [(container, payload)]\<rparr>)"

text \<open>An assignment to attributes of the pallet object at \<open>r\<close>.\<close>

definition upd :: "ref \<Rightarrow> (pallet \<Rightarrow> pallet) \<Rightarrow> world \<Rightarrow> world" where
  "upd r f w = w\<lparr>heap := (heap w)(r := f (heap w r))\<rparr>"

section \<open>The pallet-merge heuristic\<close>

text \<open>
  One iteration of the construction loop (lines 111 to 120): a new pallet for the order
  line, packed by \<^verbatim>\<open>dubePacker\<close>; \<^verbatim>\<open>assert done == True\<close> raises when the packing
  failed.
\<close>

definition build_pallet ::
  "env \<Rightarrow> solver \<Rightarrow> orderline \<Rightarrow> ref list \<Rightarrow> world \<Rightarrow> error + (ref list \<times> world)" where
  "build_pallet E S ol palletsList w =
     (let p = next_ref w;
          w1 = w\<lparr>heap := (heap w)(p := Pallet E (pallet_size S) (pallet_max_weight S)),
                 next_ref := Suc (next_ref w)\<rparr>
      in case call_packer E (heap w1 p) (Inl ol) w1 of
           ((done, packedCases, lm), w2) \<Rightarrow>
             if \<not> done then Inl AssertionError
             else
               let w3 = upd p (\<lambda>x. x\<lparr>cases := packedCases, layersMap := lm\<rparr>) w2;
                   w4 = upd p (\<lambda>x. x\<lparr>weight := ol_weight ol\<rparr>) w3;
                   w5 = upd p (\<lambda>x. x\<lparr>volume := ol_volume ol\<rparr>) w4;
                   w6 = w5\<lparr>pallet_of := (pallet_of w5)(ol \<mapsto> p)\<rparr>;
                   w7 = upd p (\<lambda>x. x\<lparr>orderlines := insert ol (orderlines x)\<rparr>) w6
               in Inr (palletsList @ [p], w7))"

fun build_all ::
  "env \<Rightarrow> solver \<Rightarrow> orderline list \<Rightarrow> ref list \<Rightarrow> world \<Rightarrow> error + (ref list \<times> world)" where
  "build_all E S [] palletsList w = Inr (palletsList, w)"
| "build_all E S (ol # ols) palletsList w =
     (case build_pallet E S ol palletsList w of
        Inl e \<Rightarrow> Inl e
      | Inr (palletsList', w') \<Rightarrow> build_all E S ols palletsList' w')"

text \<open>
  The five assignments by which \<open>host\<close> absorbs \<open>hosted\<close> (lines 143 to 147), in the
  order of the source.
\<close>

definition merge_into :: "ref \<Rightarrow> ref \<Rightarrow> pcase list \<Rightarrow> layers \<Rightarrow> world \<Rightarrow> world" where
  "merge_into host hosted packedCases lm w =
     (let w1 = upd host (\<lambda>x. x\<lparr>cases := packedCases\<rparr>) w;
          w2 = upd host (\<lambda>x. x\<lparr>layersMap := lm\<rparr>) w1;
          w3 = upd host (\<lambda>x. x\<lparr>weight := weight x + weight (heap w2 hosted)\<rparr>) w2;
          w4 = upd host (\<lambda>x. x\<lparr>volume := volume x + volume (heap w3 hosted)\<rparr>) w3
      in upd host (\<lambda>x. x\<lparr>orderlines := orderlines x \<union> orderlines (heap w4 hosted)\<rparr>) w4)"

text \<open>\<^verbatim>\<open>for line in hosted.orderlines: line.pallet = host\<close>\<close>

definition repoint :: "ref \<Rightarrow> ref \<Rightarrow> world \<Rightarrow> world" where
  "repoint host hosted w =
     w\<lparr>pallet_of := (\<lambda>line. if line \<in> orderlines (heap w hosted) then Some host
                              else pallet_of w line)\<rparr>"

text \<open>
  A successful merge in the heuristic (lines 143 to 150); \<^verbatim>\<open>palletsList.remove\<close>
  raises when the pallet is not in the list.
\<close>

definition absorb ::
  "ref \<Rightarrow> ref \<Rightarrow> pcase list \<Rightarrow> layers \<Rightarrow> ref list \<Rightarrow> world \<Rightarrow> error + (ref list \<times> world)" where
  "absorb host hosted packedCases lm palletsList w =
     (let w1 = merge_into host hosted packedCases lm w
      in if hosted \<notin> set palletsList then Inl ValueError
         else Inr (remove1 hosted palletsList, repoint host hosted w1))"

text \<open>
  The body of the merging loop for one edge (lines 128 to 164). Reading the
  \<^verbatim>\<open>pallet\<close> attribute of an order line to which none was ever assigned raises.
\<close>

definition merge_body ::
  "env \<Rightarrow> edge \<Rightarrow> ref list \<Rightarrow> world \<Rightarrow> error + (ref list \<times> world)" where
  "merge_body E e palletsList w =
     (case pallet_of w (origin e) of
        None \<Rightarrow> Inl AttributeError
      | Some host \<Rightarrow>
     (case pallet_of w (endp e) of
        None \<Rightarrow> Inl AttributeError
      | Some hosted \<Rightarrow>
          if host = hosted then Inr (palletsList, w)
          else if volume (heap w host) + volume (heap w hosted) > maxVolume (heap w host)
          then Inr (palletsList, w)
          else if weight (heap w host) + weight (heap w hosted) > maxWeight (heap w host)
          then Inr (palletsList, w)
          else
            (case call_packer E (heap w host) (Inr (heap w hosted)) w of
               ((done, packedCases, lm), w1) \<Rightarrow>
                 if done then absorb host hosted packedCases lm palletsList w1
                 else
                   (case call_packer E (heap w1 hosted) (Inr (heap w1 host)) w1 of
                      ((done2, packedCases2, lm2), w2) \<Rightarrow>
                        if done2 then absorb hosted host packedCases2 lm2 palletsList w2
                        else Inr (palletsList, w2)))))"

text \<open>
  The merging loop (line 126): each iteration takes the next edge from the generator
  \<^verbatim>\<open>_bra\<close>, which consumes one random draw, and runs the body on it; \<open>n\<close> counts the
  iterations that are left and \<open>arr\<close> is the pool of the generator.
\<close>

fun sweep ::
  "env \<Rightarrow> real \<Rightarrow> nat \<Rightarrow> edge list \<Rightarrow> ref list \<Rightarrow> world \<Rightarrow> error + (ref list \<times> world)" where
  "sweep E beta 0 arr palletsList w = Inr (palletsList, w)"
| "sweep E beta (Suc n) arr palletsList w =
     (case bra_next E beta (random E (rng_pos w)) arr of
        Inl e \<Rightarrow> Inl e
      | Inr (edge, arr') \<Rightarrow>
          (case merge_body E edge palletsList (w\<lparr>rng_pos := Suc (rng_pos w)\<rparr>) of
             Inl e \<Rightarrow> Inl e
           | Inr (palletsList', w') \<Rightarrow> sweep E beta n arr' palletsList' w'))"

text \<open>
  \<^verbatim>\<open>sorted(self.edges, key=saving, reverse=True)\<close>: by decreasing saving, edges of
  equal saving in their original order.
\<close>

definition savingsList :: "solver \<Rightarrow> edge list" where
  "savingsList S = sort_key (\<lambda>e. - saving e) (s_edges S)"

definition heuristic :: "env \<Rightarrow> solver \<Rightarrow> real \<Rightarrow> world \<Rightarrow> error + (ref list \<times> world)" where
  "heuristic E S beta w =
     (case build_all E S (s_orderlines S) [] w of
        Inl e \<Rightarrow> Inl e
      | Inr (palletsList, w1) \<Rightarrow>
          sweep E beta (length (savingsList S)) (savingsList S) palletsList w1)"

section \<open>The cost of a solution\<close>

text \<open>
  \<^verbatim>\<open>dict(pairs)\<close>: a key that comes again keeps its first position and takes the new
  value.
\<close>

fun dict_put :: "'k \<Rightarrow> 'v \<Rightarrow> ('k \<times> 'v) list \<Rightarrow> ('k \<times> 'v) list" where
  "dict_put k v [] = [(k, v)]"
| "dict_put k v ((k', v') # m) = (if k = k' then (k, v) # m else (k', v') # dict_put k v m)"

definition dict_of :: "('k \<times> 'v) list \<Rightarrow> ('k \<times> 'v) list" where
  "dict_of pairs = foldl (\<lambda>m (k, v). dict_put k v m) [] pairs"

text \<open>Line 184: the keys of the layer assignment, sorted by layer (a stable sort).\<close>

definition sort_orderlines :: "pallet \<Rightarrow> orderline list" where
  "sort_orderlines p = map fst (dict_of (sort_key snd (layersMap p)))"

text \<open>\<^verbatim>\<open>dists[i, j]\<close>: reading the array outside of its bounds raises.\<close>

definition dists_at :: "matrix \<Rightarrow> nat \<Rightarrow> nat \<Rightarrow> error + real" where
  "dists_at dists i j =
     (if i < length dists \<and> j < length (dists ! i) then Inr (dists ! i ! j)
      else Inl IndexError)"

text \<open>
  \<^verbatim>\<open>sum(...)\<close> over a generator: the items are produced and added one after the other
  to the running sum \<open>acc\<close>, which starts at 0; producing an item may raise.
\<close>

fun py_sum :: "env \<Rightarrow> real \<Rightarrow> (error + real) list \<Rightarrow> error + real" where
  "py_sum E acc [] = Inr acc"
| "py_sum E acc (item # items) =
     (case item of
        Inl e \<Rightarrow> Inl e
      | Inr x \<Rightarrow> py_sum E (num_add E acc x) items)"

text \<open>
  The loop of \<^verbatim>\<open>getCost\<close> with its accumulator; \<^verbatim>\<open>sort_orderlines[0]\<close> raises on
  an empty layer assignment. Every addition is the addition of the numbers of the matrix,
  in the order in which the source performs it.
\<close>

fun getCost_loop :: "env \<Rightarrow> real \<Rightarrow> pallet list \<Rightarrow> matrix \<Rightarrow> error + real" where
  "getCost_loop E tot [] dists = Inr tot"
| "getCost_loop E tot (p # solution) dists =
     (let so = sort_orderlines p
      in if so = [] then Inl IndexError
         else
           (case dists_at dists 0 (location (hd so)) of
              Inl e \<Rightarrow> Inl e
            | Inr a \<Rightarrow>
           (case dists_at dists (location (last so)) 0 of
              Inl e \<Rightarrow> Inl e
            | Inr b \<Rightarrow>
                let tot1 = num_add E tot (num_add E a b)
                in (case py_sum E 0 (map (\<lambda>(i, j). dists_at dists (location i) (location j))
                                       (zip (butlast so) (tl so))) of
                      Inl e \<Rightarrow> Inl e
                    | Inr s \<Rightarrow> getCost_loop E (num_add E tot1 s) solution dists))))"

definition getCost :: "env \<Rightarrow> pallet list \<Rightarrow> matrix \<Rightarrow> error + real" where
  "getCost E solution dists = getCost_loop E 0 solution dists"

text \<open>
  The cost as the specification words it: the visiting order of a pallet is its layer
  assignment sorted by layer index ascending, entries of equal layer in the order of their
  insertion (their position in the mapping); the route of a pallet goes from the depot to
  the first location, along the consecutive locations, and from the last one back to the
  depot.
\<close>

definition spec_visiting_order :: "layers \<Rightarrow> orderline list" where
  "spec_visiting_order m =
     map (\<lambda>(pos, (ol, layer)). ol)
       (sort_key (\<lambda>(pos, (ol, layer)). (layer, pos)) (enumerate 0 m))"

definition spec_route_cost :: "matrix \<Rightarrow> orderline list \<Rightarrow> real" where
  "spec_route_cost dists vs =
     dists ! 0 ! location (vs ! 0) + dists ! location (vs ! (length vs - 1)) ! 0
     + (\<Sum>i<length vs - 1. dists ! location (vs ! i) ! location (vs ! Suc i))"

definition spec_cost :: "pallet list \<Rightarrow> matrix \<Rightarrow> real" where
  "spec_cost solution dists =
     (\<Sum>p\<leftarrow>solution. spec_route_cost dists (spec_visiting_order (layersMap p)))"

text \<open>The index \<open>i\<close> is a row and a column of the matrix.\<close>

definition in_matrix :: "matrix \<Rightarrow> nat \<Rightarrow> bool" where
  "in_matrix dists i \<longleftrightarrow> i < length dists \<and> list_all (\<lambda>row. i < length row) dists"

text \<open>
  The additions that the accumulation of the cost performs when every sum is the exact
  one, as pairs of operands: those of the running sum of the consecutive distances, and
  for each pallet the sum of the two distances to and from the depot, its addition to the
  total, and the addition of the sum of the consecutive distances.
\<close>

fun sum_adds :: "real \<Rightarrow> real list \<Rightarrow> (real \<times> real) list" where
  "sum_adds acc [] = []"
| "sum_adds acc (c # cs) = (acc, c) # sum_adds (acc + c) cs"

definition route_adds :: "real \<Rightarrow> matrix \<Rightarrow> orderline list \<Rightarrow> (real \<times> real) list" where
  "route_adds tot dists vs =
     (let a = dists ! 0 ! location (hd vs);
          b = dists ! location (last vs) ! 0;
          cs = map (\<lambda>(i, j). dists ! location i ! location j) (zip (butlast vs) (tl vs))
      in [(a, b), (tot, a + b)] @ sum_adds 0 cs @ [(tot + (a + b), sum_list cs)])"

fun additions :: "real \<Rightarrow> pallet list \<Rightarrow> matrix \<Rightarrow> (real \<times> real) list" where
  "additions tot [] dists = []"
| "additions tot (p # solution) dists =
     (let vs = spec_visiting_order (layersMap p)
      in route_adds tot dists vs
         @ additions (tot + spec_route_cost dists vs) solution dists)"

text \<open>
  The arithmetic of the matrix is exact on a solution: none of these additions overflows
  or rounds.
\<close>

definition exact_on :: "env \<Rightarrow> pallet list \<Rightarrow> matrix \<Rightarrow> bool" where
  "exact_on E solution dists \<longleftrightarrow>
     list_all (\<lambda>(x, y). num_add E x y = x + y) (additions 0 solution dists)"

section \<open>The search driver\<close>

definition GREEDY_BETA :: real where
  "GREEDY_BETA = 0.9999"

text \<open>\<^verbatim>\<open>random.uniform(a, b)\<close> is \<^verbatim>\<open>a + (b - a) * random()\<close>.\<close>

definition uniform :: "real \<times> real \<Rightarrow> real \<Rightarrow> real" where
  "uniform betarange u = fst betarange + (snd betarange - fst betarange) * u"

text \<open>
  The loop of \<^verbatim>\<open>__call__\<close> (lines 216 to 229). Each test of the loop condition
  reads the clock; the loop runs for as long as the clock allows, and the function has no
  value when the clock never reaches the deadline.
\<close>

partial_function (option) search ::
  "env \<Rightarrow> solver \<Rightarrow> real \<Rightarrow> real \<times> real \<Rightarrow> real \<Rightarrow> ref list \<Rightarrow> real \<Rightarrow> nat \<Rightarrow> world
     \<Rightarrow> (error + ((ref list \<times> real \<times> nat) \<times> world)) option" where
  "search E S maxtime betarange start best bestcost iterations w =
     (let now = time E (clock_pos w);
          w0 = w\<lparr>clock_pos := Suc (clock_pos w)\<rparr>
      in if now - start < maxtime then
           let beta = uniform betarange (random E (rng_pos w0));
               w1 = w0\<lparr>rng_pos := Suc (rng_pos w0)\<rparr>
           in case heuristic E S beta w1 of
                Inl e \<Rightarrow> Some (Inl e)
              | Inr (newsol, w2) \<Rightarrow>
                  (case getCost E (map (heap w2) newsol) (s_dists S) of
                     Inl e \<Rightarrow> Some (Inl e)
                   | Inr newcost \<Rightarrow>
                       if newcost < bestcost
                       then search E S maxtime betarange start newsol newcost (iterations + 1)
                              (w2\<lparr>history := history w2 @ [newcost]\<rparr>)
                       else search E S maxtime betarange start best bestcost (iterations + 1)
                              (w2\<lparr>history := history w2 @ [bestcost]\<rparr>))
         else Some (Inr ((best, bestcost, iterations), w0)))"

definition call ::
  "env \<Rightarrow> solver \<Rightarrow> real \<Rightarrow> real \<times> real \<Rightarrow> world
     \<Rightarrow> (error + ((ref list \<times> real \<times> nat) \<times> world)) option" where
  "call E S maxtime betarange w =
     (case heuristic E S GREEDY_BETA w of
        Inl e \<Rightarrow> Some (Inl e)
      | Inr (best, w1) \<Rightarrow>
          (case getCost E (map (heap w1) best) (s_dists S) of
             Inl e \<Rightarrow> Some (Inl e)
           | Inr bestcost \<Rightarrow>
               search E S maxtime betarange (time E (clock_pos w1)) best bestcost 0
                 (w1\<lparr>clock_pos := Suc (clock_pos w1)\<rparr>)))"

section \<open>The sequential baseline\<close>

text \<open>
  \<^verbatim>\<open>itertools.permutations(palletsList, 2)\<close>: the pairs of elements at two different
  positions, in the order of the positions.
\<close>

definition permutations2 :: "'a list \<Rightarrow> ('a \<times> 'a) list" where
  "permutations2 xs =
     concat (map (\<lambda>i. map (\<lambda>j. (xs ! i, xs ! j)) (filter (\<lambda>j. j \<noteq> i) [0..<length xs]))
               [0..<length xs])"

text \<open>The body of the loop over the pairs (lines 260 to 277).\<close>

definition pair_body :: "env \<Rightarrow> ref \<times> ref \<Rightarrow> world \<Rightarrow> world" where
  "pair_body E pair w =
     (let iPallet = fst pair; jPallet = snd pair
      in if active (heap w iPallet) \<and> active (heap w jPallet) then
           if volume (heap w iPallet) + volume (heap w jPallet) > maxVolume (heap w iPallet)
           then w
           else if weight (heap w iPallet) + weight (heap w jPallet) > maxWeight (heap w iPallet)
           then w
           else
             (case call_packer E (heap w iPallet) (Inr (heap w jPallet)) w of
                ((done, packedCases, lm), w1) \<Rightarrow>
                  if done then
                    let w2 = merge_into iPallet jPallet packedCases lm w1;
                        w3 = upd jPallet (\<lambda>x. x\<lparr>active := False\<rparr>) w2
                    in repoint iPallet jPallet w3
                  else w1)
         else w)"

text \<open>
  \<^verbatim>\<open>sequential\<close>: the sort key \<^verbatim>\<open>i.cases[0].strength\<close> raises on a pallet without
  packed cases; the sort is by decreasing strength, pallets of equal strength in their
  original order.
\<close>

definition sequential :: "env \<Rightarrow> solver \<Rightarrow> world \<Rightarrow> error + (ref list \<times> world)" where
  "sequential E S w =
     (case build_all E S (s_orderlines S) [] w of
        Inl e \<Rightarrow> Inl e
      | Inr (palletsList, w1) \<Rightarrow>
          if \<exists>p\<in>set palletsList. cases (heap w1 p) = [] then Inl IndexError
          else
            let sortedList = sort_key (\<lambda>p. - strength (hd (cases (heap w1 p)))) palletsList;
                w2 = foldl (\<lambda>w pair. pair_body E pair w) w1 (permutations2 sortedList)
            in Inr (filter (\<lambda>p. active (heap w2 p)) sortedList, w2))"

section \<open>Invariants of the store\<close>

text \<open>A pallet within its bounds.\<close>

definition within_capacity :: "pallet \<Rightarrow> bool" where
  "within_capacity p \<longleftrightarrow> weight p \<le> maxWeight p \<and> volume p \<le> maxVolume p"

text \<open>
  Every pallet created so far has the capacity configured in the solver, and the
  \<^verbatim>\<open>pallet\<close> attributes point to pallets created so far.
\<close>

definition uniform_capacity :: "env \<Rightarrow> solver \<Rightarrow> world \<Rightarrow> bool" where
  "uniform_capacity E S w \<longleftrightarrow>
     (\<forall>p<next_ref w. maxWeight (heap w p) = pallet_max_weight S
                     \<and> maxVolume (heap w p) = sizeVolume E (pallet_size S))
     \<and> (\<forall>ol p. pallet_of w ol = Some p \<longrightarrow> p < next_ref w)"

text \<open>The invariant of the loops for the capacity: the listed pallets are within bounds.\<close>

definition cap_inv :: "env \<Rightarrow> solver \<Rightarrow> ref list \<Rightarrow> world \<Rightarrow> bool" where
  "cap_inv E S ps w \<longleftrightarrow>
     uniform_capacity E S w
     \<and> (\<forall>p\<in>set ps. p < next_ref w \<and> within_capacity (heap w p))"

text \<open>
  The working list and the store are well formed for the order lines \<open>L\<close>: the list
  has no duplicate, every listed pallet was created, holds at least one order line, holds
  order lines of \<open>L\<close> only, all of them pointing back to it, and every order line of \<open>L\<close>
  points to a listed pallet that holds it.
\<close>

definition well_formed :: "orderline set \<Rightarrow> ref list \<Rightarrow> world \<Rightarrow> bool" where
  "well_formed L ps w \<longleftrightarrow>
     distinct ps
     \<and> (\<forall>p\<in>set ps. p < next_ref w
            \<and> orderlines (heap w p) \<noteq> {}
            \<and> orderlines (heap w p) \<subseteq> L
            \<and> (\<forall>ol\<in>orderlines (heap w p). pallet_of w ol = Some p))
     \<and> (\<forall>ol\<in>L. \<exists>p\<in>set ps. pallet_of w ol = Some p \<and> ol \<in> orderlines (heap w p))"

text \<open>
  What a merge of \<open>hosted\<close> into \<open>host\<close> must conserve, from the working list \<open>ps\<close>
  and world \<open>w\<close> before it to \<open>ps'\<close> and \<open>w'\<close> after it.
\<close>

definition merge_conserves :: "ref \<Rightarrow> ref \<Rightarrow> ref list \<Rightarrow> world \<Rightarrow> ref list \<Rightarrow> world \<Rightarrow> bool" where
  "merge_conserves host hosted ps w ps' w' \<longleftrightarrow>
     ps' = remove1 hosted ps \<and> hosted \<notin> set ps' \<and> host \<in> set ps'
     \<and> (\<Union>p\<in>set ps'. orderlines (heap w' p)) = (\<Union>p\<in>set ps. orderlines (heap w p))
     \<and> (\<forall>p\<in>set ps'. \<forall>q\<in>set ps'. p \<noteq> q \<longrightarrow>
           orderlines (heap w' p) \<inter> orderlines (heap w' q) = {})
     \<and> weight (heap w' host) = weight (heap w host) + weight (heap w hosted)
     \<and> volume (heap w' host) = volume (heap w host) + volume (heap w hosted)
     \<and> orderlines (heap w' host) = orderlines (heap w host) \<union> orderlines (heap w hosted)
     \<and> (\<forall>ol\<in>orderlines (heap w hosted). pallet_of w' ol = Some host)
     \<and> (\<forall>ol. ol \<notin> orderlines (heap w hosted) \<longrightarrow> pallet_of w' ol = pallet_of w ol)
     \<and> (\<forall>p. p \<noteq> host \<longrightarrow> heap w' p = heap w p)"

section \<open>Example data\<close>

text \<open>
  Small concrete inputs: order lines of weight 10 and volume 100 with one case each, a
  packing procedure that always succeeds and stacks the payload on top of the container, one
  that refuses an order line heavier than the pallet bound and refuses every merge, and one
  that accepts a merge only with the stronger pallet as container.
\<close>

definition ex_line :: "nat \<Rightarrow> orderline" where
  "ex_line n = \<lparr>oid = n, location = n, ol_weight = 10, ol_volume = 100,
                ol_cases = [\<lparr>strength = int n\<rparr>]\<rparr>"

definition ex_edge :: "nat \<Rightarrow> nat \<Rightarrow> edge" where
  "ex_edge i j = \<lparr>origin = ex_line i, endp = ex_line j, saving = int (i + j)\<rparr>"

definition ex_packer :: "pallet \<Rightarrow> orderline + pallet \<Rightarrow> bool \<times> pcase list \<times> layers" where
  "ex_packer c payload =
     (let new = (case payload of Inl ol \<Rightarrow> [(ol, 0)] | Inr p \<Rightarrow> layersMap p);
          n = int (length (layersMap c))
      in (True,
          cases c @ (case payload of Inl ol \<Rightarrow> ol_cases ol | Inr p \<Rightarrow> cases p),
          layersMap c @ map (\<lambda>(k, l). (k, l + n))
                          (filter (\<lambda>(k, l). k \<notin> fst ` set (layersMap c)) new)))"

definition ex_picky_packer :: "pallet \<Rightarrow> orderline + pallet \<Rightarrow> bool \<times> pcase list \<times> layers" where
  "ex_picky_packer c payload =
     (case payload of
        Inl ol \<Rightarrow> if ol_weight ol \<le> maxWeight c then ex_packer c payload else (False, [], [])
      | Inr p \<Rightarrow> (False, [], []))"

definition ex_env :: env where
  "ex_env = \<lparr>dubePacker = ex_packer, sizeVolume = (\<lambda>(x, y, z). x * y * z),
             random = (\<lambda>_. 1 / 2), time = (\<lambda>n. real n),
             fsub = (\<lambda>x y. x - y), flog = ln, fdiv = (\<lambda>x y. x / y),
             num_add = (\<lambda>x y. x + y)\<rparr>"

definition ex_world :: world where
  "ex_world = \<lparr>heap = (\<lambda>_. Pallet ex_env (0, 0, 0) 0), pallet_of = (\<lambda>_. None), next_ref = 0,
               rng_pos = 0, clock_pos = 0, history = [], packer_log = []\<rparr>"

definition ex_solver2 :: solver where
  "ex_solver2 = \<lparr>s_orderlines = [ex_line 1, ex_line 2], s_edges = [ex_edge 1 2],
                 s_dists = [[0, 1, 2], [1, 0, 1], [2, 1, 0]],
                 pallet_size = (120, 80, 150), pallet_max_weight = 450\<rparr>"

definition ex_order_packer :: "pallet \<Rightarrow> orderline + pallet \<Rightarrow> bool \<times> pcase list \<times> layers" where
  "ex_order_packer c payload =
     (case payload of
        Inl ol \<Rightarrow> ex_packer c payload
      | Inr p \<Rightarrow>
          if cases c \<noteq> [] \<and> cases p \<noteq> [] \<and> strength (hd (cases p)) \<le> strength (hd (cases c))
          then ex_packer c payload else (False, [], []))"

definition ex_picky_env :: env where
  "ex_picky_env = ex_env\<lparr>dubePacker := ex_picky_packer\<rparr>"

definition ex_order_env :: env where
  "ex_order_env = ex_env\<lparr>dubePacker := ex_order_packer\<rparr>"

definition ex_heavy_solver :: solver where
  "ex_heavy_solver = ex_solver2\<lparr>pallet_max_weight := 5\<rparr>"

text \<open>
  The float operations with the results that CPython computes in double precision at the
  arguments used below, and the exact results elsewhere: the float \<^verbatim>\<open>1.0 - 2 ** -60\<close>
  is \<open>1.0\<close>; \<^verbatim>\<open>math.log(0.244140625)\<close> is \<open>-1.4100108877372066\<close>,
  \<^verbatim>\<open>math.log(0.625)\<close> is \<open>-0.4700036292457356\<close> and their float quotient is
  \<open>2.9999999999999996\<close>, each written as the fraction that the float denotes.
\<close>

definition ex_double_env :: env where
  "ex_double_env = ex_env\<lparr>
     fsub := (\<lambda>x y. if x = 1 \<and> y = 1 / 2 ^ 60 then 1 else x - y),
     flog := (\<lambda>x. if x = 125 / 512 then - (3175062254300813 / 2251799813685248)
                   else if x = 5 / 8 then - (4233416339067751 / 9007199254740992)
                   else ln x),
     fdiv := (\<lambda>x y. if x = - (3175062254300813 / 2251799813685248)
                        \<and> y = - (4233416339067751 / 9007199254740992)
                     then 6755399441055743 / 2251799813685248
                     else x / y)\<rparr>"







text \<open>
  A stream of draws that are all \<open>0.0\<close>; and a packing procedure that always reports
  success and returns no layer assignment, with draws that are all the float
  \<^verbatim>\<open>1.0 - 0.9999\<close>, which is \<open>9.999999999998899e-05\<close>: the logarithm of such a draw is
  that of the base, and \<^verbatim>\<open>math.log\<close> returns \<open>1.0\<close>.
\<close>

definition ex_zero_env :: env where
  "ex_zero_env = ex_env\<lparr>random := (\<lambda>_. 0)\<rparr>"

definition ex_blank_env :: env where
  "ex_blank_env = ex_env\<lparr>
     dubePacker := (\<lambda>c payload. (True, [], [])),
     random := (\<lambda>_. 450359962737 / 4503599627370496),
     fsub := (\<lambda>x y. if x = 1 \<and> y = 9999 / 10000 then 450359962737 / 4503599627370496
                     else x - y)\<rparr>"


text \<open>
  The layer assignment of a pallet is consistent with its order lines: its keys are the
  order lines of the pallet, each once.
\<close>

definition consistent :: "pallet \<Rightarrow> bool" where
  "consistent p \<longleftrightarrow>
     distinct (map fst (layersMap p)) \<and> set (map fst (layersMap p)) = orderlines p"

text \<open>A packing procedure that always succeeds: every call reports success.\<close>

definition always_succeeds :: "env \<Rightarrow> bool" where
  "always_succeeds E \<longleftrightarrow> (\<forall>c payload. fst (dubePacker E c payload))"

text \<open>
  A packing procedure that assigns a layer to what it packs: the layer assignment it
  returns for consistent arguments has as keys the order lines of the container and of the
  payload, each once.
\<close>

definition assigns_layers :: "env \<Rightarrow> bool" where
  "assigns_layers E \<longleftrightarrow>
     (\<forall>c ol. consistent c \<longrightarrow>
           distinct (map fst (snd (snd (dubePacker E c (Inl ol)))))
           \<and> set (map fst (snd (snd (dubePacker E c (Inl ol))))) = insert ol (orderlines c))
     \<and> (\<forall>c p. consistent c \<and> consistent p \<longrightarrow>
           distinct (map fst (snd (snd (dubePacker E c (Inr p)))))
           \<and> set (map fst (snd (snd (dubePacker E c (Inr p))))) = orderlines c \<union> orderlines p)"

text \<open>
  Every listed pallet has the configured bounds and carries the summed weight and volume
  of its order lines; its layer assignment is consistent when the packing procedure assigns
  layers.
\<close>

definition loaded :: "env \<Rightarrow> solver \<Rightarrow> ref list \<Rightarrow> world \<Rightarrow> bool" where
  "loaded E S ps w \<longleftrightarrow>
     (\<forall>p\<in>set ps.
        maxWeight (heap w p) = pallet_max_weight S
        \<and> maxVolume (heap w p) = sizeVolume E (pallet_size S)
        \<and> weight (heap w p) = sum ol_weight (orderlines (heap w p))
        \<and> volume (heap w p) = sum ol_volume (orderlines (heap w p))
        \<and> (assigns_layers E \<longrightarrow> consistent (heap w p)))"

text \<open>The two ends of an edge are on the same pallet.\<close>

definition joined :: "edge \<Rightarrow> world \<Rightarrow> bool" where
  "joined e w \<longleftrightarrow> pallet_of w (origin e) = pallet_of w (endp e)"

definition ex_solver4 :: solver where
  "ex_solver4 = \<lparr>s_orderlines = [ex_line 1, ex_line 2, ex_line 3, ex_line 4],
                 s_edges = [ex_edge 1 2, ex_edge 1 3, ex_edge 1 4,
                            ex_edge 2 3, ex_edge 2 4, ex_edge 3 4],
                 s_dists = [[0, 1, 2, 3, 4], [1, 0, 1, 2, 3], [2, 1, 0, 1, 2],
                            [3, 2, 1, 0, 1], [4, 3, 2, 1, 0]],
                 pallet_size = (120, 80, 150), pallet_max_weight = 450\<rparr>"

text \<open>
  What the loop of the search driver guarantees about a returned result, from the best cost,
  the iteration count and the world at the entry of the loop: the history has grown by one
  entry for each iteration counted since, the entries never increase and start at most at
  the entry best cost, and the returned best cost is the last of them.
\<close>

definition search_post ::
  "real \<Rightarrow> nat \<Rightarrow> world \<Rightarrow> error + ((ref list \<times> real \<times> nat) \<times> world) \<Rightarrow> bool" where
  "search_post bestcost iterations w r \<longleftrightarrow>
     (case r of
        Inl e \<Rightarrow> True
      | Inr ((best', bestcost', iterations'), w') \<Rightarrow>
          \<exists>hs. history w' = history w @ hs
              \<and> iterations' = iterations + length hs
              \<and> sorted_wrt (\<ge>) (bestcost # hs)
              \<and> bestcost' = last (bestcost # hs))"

section \<open>Properties of the biased selector\<close>

lemma bra_next_in_range:
  assumes "0 < u" "0 < fsub E 1 beta" "flog E (fsub E 1 beta) \<noteq> 0" "arr \<noteq> []"
  shows "bra_next E beta u arr =
           Inr (arr ! nat (py_int (fdiv E (flog E u) (flog E (fsub E 1 beta)))
                             mod int (length arr)),
                pop arr (nat (py_int (fdiv E (flog E u) (flog E (fsub E 1 beta)))
                                mod int (length arr))))"
    and "nat (py_int (fdiv E (flog E u) (flog E (fsub E 1 beta))) mod int (length arr))
           < length arr"
proof -
  show "bra_next E beta u arr =
           Inr (arr ! nat (py_int (fdiv E (flog E u) (flog E (fsub E 1 beta)))
                             mod int (length arr)),
                pop arr (nat (py_int (fdiv E (flog E u) (flog E (fsub E 1 beta)))
                                mod int (length arr))))"
    using assms by (simp add: bra_next_def py_log_def Let_def)
  show "nat (py_int (fdiv E (flog E u) (flog E (fsub E 1 beta))) mod int (length arr))
          < length arr"
    using assms by (simp add: nat_less_iff)
qed

lemma bra_next_raises:
  assumes "0 < u" "0 < fsub E 1 beta" "flog E (fsub E 1 beta) = 0"
  shows "bra_next E beta u arr = Inl ZeroDivisionError"
  using assms by (simp add: bra_next_def py_log_def)

lemma py_int_floor: "0 \<le> x \<Longrightarrow> py_int x = \<lfloor>x\<rfloor>"
  by (simp add: py_int_def)

lemma log_draw_nonneg:
  assumes "0 < beta" "beta < 1" "0 < u" "u < 1"
  shows "0 \<le> log (1 - beta) u"
proof -
  have "ln u < 0" using assms by simp
  moreover have "ln (1 - beta) < 0" using assms by simp
  ultimately have "0 < log (1 - beta) u"
    unfolding log_def by (simp add: divide_neg_neg)
  then show ?thesis by simp
qed

lemma mset_pop:
  assumes "i < length arr"
  shows "add_mset (arr ! i) (mset (pop arr i)) = mset arr"
proof -
  have "arr = take i arr @ arr ! i # drop (Suc i) arr"
    using assms by (simp add: id_take_nth_drop)
  then have "mset arr = mset (take i arr @ arr ! i # drop (Suc i) arr)" by simp
  then show ?thesis by (simp add: pop_def)
qed

lemma length_pop: "i < length arr \<Longrightarrow> length (pop arr i) = length arr - 1"
  by (simp add: pop_def)

lemma bra_next_mset:
  assumes "bra_next E beta u arr = Inr (x, arr')"
  shows "add_mset x (mset arr') = mset arr \<and> Suc (length arr') = length arr"
proof -
  from assms obtain y where y: "py_log E u (fsub E 1 beta) = Inr y" and ne: "arr \<noteq> []"
    by (auto simp: bra_next_def split: sum.splits if_splits)
  define i where "i = nat (py_int y mod int (length arr))"
  have lt: "i < length arr" using ne by (simp add: i_def nat_less_iff)
  from assms y ne have "x = arr ! i" "arr' = pop arr i"
    by (simp_all add: bra_next_def Let_def i_def)
  then show ?thesis using mset_pop [OF lt] length_pop [OF lt] lt by simp
qed

lemma bra_run_permutes:
  assumes "log_returns E beta"
  shows "n = length arr \<Longrightarrow> \<exists>ys. bra_run E beta n arr k = Inr ys \<and> mset ys = mset arr"
proof (induction n arbitrary: arr k)
  case 0
  then show ?case by simp
next
  case (Suc n)
  then have ne: "arr \<noteq> []" by auto
  let ?i = "nat (py_int (fdiv E (flog E (random E k)) (flog E (fsub E 1 beta)))
                  mod int (length arr))"
  have u: "0 < random E k" and b: "0 < fsub E 1 beta" and l: "flog E (fsub E 1 beta) \<noteq> 0"
    using assms by (simp_all add: log_returns_def)
  have step: "bra_next E beta (random E k) arr = Inr (arr ! ?i, pop arr ?i)"
    by (rule bra_next_in_range(1) [OF u b l ne])
  have lt: "?i < length arr"
    by (rule bra_next_in_range(2) [OF u b l ne])
  have "n = length (pop arr ?i)" using Suc.prems lt by (simp add: length_pop)
  from Suc.IH [OF this, of "Suc k"] obtain ys
    where ys: "bra_run E beta n (pop arr ?i) (Suc k) = Inr ys" "mset ys = mset (pop arr ?i)"
    by blast
  have "bra_run E beta (Suc n) arr k = Inr (arr ! ?i # ys)"
    using step ys by simp
  moreover have "mset (arr ! ?i # ys) = mset arr"
    using ys mset_pop [OF lt] by simp
  ultimately show ?case by blast
qed

text \<open>
  C5. For every finite input, and every \<open>beta\<close> and stream of draws for which every call
  of \<^verbatim>\<open>math.log\<close> returns (every draw is above 0, the float \<^verbatim>\<open>1.0 - beta\<close> is positive
  and its logarithm is not zero), \<^verbatim>\<open>_bra\<close> runs to its end and what it yields is a
  permutation of the input: the same elements with the same multiplicities, hence as many
  elements as the input, none twice unless the input has it twice, none omitted; for the
  empty input it yields nothing. When the logarithm of the float \<^verbatim>\<open>1.0 - beta\<close> is zero
  (the subtraction has rounded to 1.0, as it does for a \<open>beta\<close> of \<open>1 / 2 ^ 60\<close>), the
  generator raises \<^verbatim>\<open>ZeroDivisionError\<close> at its first step on a non-empty input and
  yields nothing.
\<close>

theorem C5_bra_permutation:
  "(log_returns E beta \<longrightarrow>
      (\<exists>ys. bra E array beta k = Inr ys \<and> mset ys = mset array
            \<and> length ys = length array \<and> set ys = set array
            \<and> (distinct array \<longrightarrow> distinct ys)
            \<and> (array = [] \<longrightarrow> ys = [])))
   \<and> (array \<noteq> [] \<and> 0 < random E k \<and> 0 < fsub E 1 beta \<and> flog E (fsub E 1 beta) = 0 \<longrightarrow>
        bra E array beta k = Inl ZeroDivisionError)"
proof (intro conjI impI)
  assume r: "log_returns E beta"
  from bra_run_permutes [OF r refl, of array k] obtain ys
    where ys: "bra_run E beta (length array) array k = Inr ys" "mset ys = mset array"
    by blast
  have "length ys = length array" using ys(2) by (rule mset_eq_length)
  moreover have "set ys = set array" using ys(2) by (rule mset_eq_setD)
  moreover have "distinct array \<longrightarrow> distinct ys" using ys(2) by (metis mset_eq_imp_distinct_iff)
  moreover have "array = [] \<longrightarrow> ys = []" using ys(2) by auto
  ultimately show "\<exists>ys. bra E array beta k = Inr ys \<and> mset ys = mset array
            \<and> length ys = length array \<and> set ys = set array
            \<and> (distinct array \<longrightarrow> distinct ys)
            \<and> (array = [] \<longrightarrow> ys = [])"
    using ys by (auto simp: bra_def)
next
  assume a: "array \<noteq> [] \<and> 0 < random E k \<and> 0 < fsub E 1 beta \<and> flog E (fsub E 1 beta) = 0"
  then obtain n where n: "length array = Suc n" by (cases array) auto
  have "bra_next E beta (random E k) array = Inl ZeroDivisionError"
    using a by (simp add: bra_next_raises)
  then show "bra E array beta k = Inl ZeroDivisionError"
    by (simp add: bra_def n)
qed

theorem C5_bra_permutation_witness:
  "log_returns ex_double_env (3/8)
   \<and> (\<exists>ys. bra ex_double_env [1::nat, 2, 3] (3/8) 0 = Inr ys \<and> mset ys = mset [1::nat, 2, 3]
            \<and> length ys = length [1::nat, 2, 3] \<and> set ys = set [1::nat, 2, 3]
            \<and> distinct ys)
   \<and> [1::nat, 2, 3] \<noteq> [] \<and> 0 < random ex_double_env 0
   \<and> 0 < fsub ex_double_env 1 (1 / 2 ^ 60) \<and> flog ex_double_env (fsub ex_double_env 1 (1 / 2 ^ 60)) = 0
   \<and> bra ex_double_env [1::nat, 2, 3] (1 / 2 ^ 60) 0 = Inl ZeroDivisionError"
proof -
  have r: "log_returns ex_double_env (3/8)"
    by (simp add: log_returns_def ex_double_env_def ex_env_def)
  have z: "[1::nat, 2, 3] \<noteq> [] \<and> 0 < random ex_double_env 0
           \<and> 0 < fsub ex_double_env 1 (1 / 2 ^ 60)
           \<and> flog ex_double_env (fsub ex_double_env 1 (1 / 2 ^ 60)) = 0"
    by (simp add: ex_double_env_def ex_env_def)
  note t = C5_bra_permutation [where E = ex_double_env and array = "[1::nat, 2, 3]" and k = 0]
  from t [where beta = "3/8", THEN conjunct1, rule_format, OF r]
       t [where beta = "1 / 2 ^ 60", THEN conjunct2, rule_format, OF z] r z
  show ?thesis by auto
qed

text \<open>
  Not every \<open>beta\<close> strictly between 0 and 1 gives a permutation: with
  \<open>beta = 1 / 2 ^ 60\<close> and draws of \<open>1 / 2\<close>, the float \<^verbatim>\<open>1.0 - beta\<close> is \<open>1.0\<close>, its
  logarithm is zero and \<^verbatim>\<open>_bra\<close> raises instead of yielding a permutation.
\<close>

theorem C5_bra_tiny_beta_raises:
  "bra ex_double_env [1::nat, 2, 3] (1 / 2 ^ 60) 0 = Inl ZeroDivisionError"
  by (simp add: bra_def bra_next_def py_log_def ex_double_env_def ex_env_def)

text \<open>
  C6. One step of \<^verbatim>\<open>_bra\<close> with \<open>k\<close> elements left in the pool and a draw \<open>u\<close> for which
  \<^verbatim>\<open>math.log\<close> returns yields the element at index \<open>int(q) mod k\<close> of the pool and removes
  it from the pool, where \<open>q\<close> is the value that \<^verbatim>\<open>math.log(u, 1.0 - beta)\<close> returns: the
  float quotient of the logarithm of \<open>u\<close> by the logarithm of the float \<^verbatim>\<open>1.0 - beta\<close>,
  truncated by \<^verbatim>\<open>int\<close>. The index is wrapped by the modulo, not clamped, and is always a
  position of the pool. It is the index \<open>floor (log (1 - beta) u) mod k\<close> whenever the float
  quotient has the same integer part as the exact logarithm, for \<open>beta\<close> and \<open>u\<close> strictly
  between 0 and 1.
\<close>

theorem C6_bra_selection_law:
  assumes "0 < u" and "0 < fsub E 1 beta" and "flog E (fsub E 1 beta) \<noteq> 0" and "arr \<noteq> []"
  shows "bra_next E beta u arr =
           Inr (arr ! nat (py_int (fdiv E (flog E u) (flog E (fsub E 1 beta)))
                             mod int (length arr)),
                take (nat (py_int (fdiv E (flog E u) (flog E (fsub E 1 beta)))
                             mod int (length arr))) arr
                  @ drop (Suc (nat (py_int (fdiv E (flog E u) (flog E (fsub E 1 beta)))
                                      mod int (length arr)))) arr)
         \<and> nat (py_int (fdiv E (flog E u) (flog E (fsub E 1 beta))) mod int (length arr))
             < length arr
         \<and> (0 < beta \<and> beta < 1 \<and> u < 1
            \<and> \<lfloor>fdiv E (flog E u) (flog E (fsub E 1 beta))\<rfloor> = \<lfloor>log (1 - beta) u\<rfloor> \<longrightarrow>
              bra_next E beta u arr =
                Inr (arr ! nat (\<lfloor>log (1 - beta) u\<rfloor> mod int (length arr)),
                     take (nat (\<lfloor>log (1 - beta) u\<rfloor> mod int (length arr))) arr
                       @ drop (Suc (nat (\<lfloor>log (1 - beta) u\<rfloor> mod int (length arr)))) arr))"
proof -
  let ?q = "fdiv E (flog E u) (flog E (fsub E 1 beta))"
  have "py_int ?q = \<lfloor>log (1 - beta) u\<rfloor>"
    if b: "0 < beta" "beta < 1" "u < 1" and f: "\<lfloor>?q\<rfloor> = \<lfloor>log (1 - beta) u\<rfloor>"
  proof -
    have "0 \<le> log (1 - beta) u" using b assms(1) by (simp add: log_draw_nonneg)
    then have "0 \<le> \<lfloor>?q\<rfloor>" unfolding f by simp
    then have "0 \<le> ?q" by simp
    then show ?thesis using f by (simp add: py_int_floor)
  qed
  then show ?thesis
    using bra_next_in_range [OF assms] by (simp add: pop_def)
qed

theorem C6_bra_selection_law_witness:
  "(0::real) < 125/512 \<and> 0 < fsub ex_double_env 1 (3/8)
   \<and> flog ex_double_env (fsub ex_double_env 1 (3/8)) \<noteq> 0
   \<and> [10::nat, 20, 30, 40] \<noteq> []
   \<and> bra_next ex_double_env (3/8) (125/512) [10::nat, 20, 30, 40] = Inr (30, [10, 20, 40])
   \<and> bra_next ex_env (1/2) (1/32) [10::nat, 20, 30] = Inr (30, [10, 20])"
proof -
  have a: "bra_next ex_double_env (3/8) (125/512) [10::nat, 20, 30, 40] = Inr (30, [10, 20, 40])"
    using C6_bra_selection_law [of "125/512" ex_double_env "3/8" "[10::nat, 20, 30, 40]"]
    by (simp add: ex_double_env_def ex_env_def py_int_def)
  have p: "(1/2::real) ^ 5 = 1/32" by (simp add: power_divide)
  have "log (1/2) ((1/2::real) ^ 5) = real 5 * log (1/2) (1/2)"
    by (rule log_nat_power) simp
  then have l: "log (1/2) (1/32) = (5::real)"
    unfolding p by simp
  have f: "fdiv ex_env (flog ex_env (1/32)) (flog ex_env (fsub ex_env 1 (1/2))) = 5"
    using l by (simp add: ex_env_def log_def)
  have b: "bra_next ex_env (1/2) (1/32) [10::nat, 20, 30] = Inr (30, [10, 20])"
    using C6_bra_selection_law [of "1/32" ex_env "1/2" "[10::nat, 20, 30]"] f
    by (simp add: ex_env_def py_int_def)
  show ?thesis using a b by (simp add: ex_double_env_def ex_env_def)
qed

text \<open>
  The index is not always that of the exact logarithm: with \<open>beta = 3/8\<close> and the draw
  \<open>u = 125/512\<close>, the logarithm of \<open>u\<close> in base \<open>1 - beta = 5/8\<close> is 3, so with four
  elements in the pool the exact index is 3, the last element; the float quotient that
  \<^verbatim>\<open>math.log\<close> returns is 2.9999999999999996, and the element at index 2 is yielded.
\<close>

theorem C6_bra_float_quotient_below:
  "bra_next ex_double_env (3/8) (125/512) [10::nat, 20, 30, 40] = Inr (30, [10, 20, 40])
   \<and> [10::nat, 20, 30, 40] ! nat (\<lfloor>log (1 - 3/8) (125/512)\<rfloor> mod int (length [10::nat, 20, 30, 40])) = 40"
proof -
  have a: "bra_next ex_double_env (3/8) (125/512) [10::nat, 20, 30, 40] = Inr (30, [10, 20, 40])"
    by (simp add: bra_next_def py_log_def py_int_def pop_def ex_double_env_def ex_env_def)
  have p: "(5/8::real) ^ 3 = 125/512" by (simp add: power_divide)
  have "log (5/8) ((5/8::real) ^ 3) = real 3 * log (5/8) (5/8)"
    by (rule log_nat_power) simp
  then have l: "log (5/8) (125/512) = (3::real)"
    unfolding p by simp
  have "(1::real) - 3/8 = 5/8" by simp
  then show ?thesis using a l by simp
qed

section \<open>The cost of a solution is the cost of the specification\<close>

lemma dict_put_fresh: "k \<notin> fst ` set m \<Longrightarrow> dict_put k v m = m @ [(k, v)]"
  by (induction m) auto

lemma dict_fold_distinct:
  "distinct (map fst (acc @ xs)) \<Longrightarrow> foldl (\<lambda>m (k, v). dict_put k v m) acc xs = acc @ xs"
proof (induction xs arbitrary: acc)
  case Nil
  then show ?case by simp
next
  case (Cons x xs)
  obtain k v where x: "x = (k, v)" by (cases x)
  have "k \<notin> fst ` set acc" using Cons.prems x by auto
  then have "dict_put k v acc = acc @ [(k, v)]" by (rule dict_put_fresh)
  moreover have "distinct (map fst ((acc @ [(k, v)]) @ xs))" using Cons.prems x by simp
  ultimately show ?case using Cons.IH [of "acc @ [(k, v)]"] x by simp
qed

lemma dict_of_distinct: "distinct (map fst m) \<Longrightarrow> dict_of m = m"
  using dict_fold_distinct [of "[]" m] by (simp add: dict_of_def)

lemma distinct_keys_sort: "distinct (map fst m) \<Longrightarrow> distinct (map fst (sort_key snd m))"
proof -
  assume "distinct (map fst m)"
  moreover have "mset (map fst (sort_key snd m)) = mset (map fst m)" by simp
  ultimately show ?thesis by (metis mset_eq_imp_distinct_iff)
qed

lemma sorted_fst_of_lex:
  fixes f :: "'a \<Rightarrow> int \<times> nat"
  shows "sorted (map f xs) \<Longrightarrow> sorted (map (\<lambda>x. fst (f x)) xs)"
  by (induction xs) (auto simp: less_eq_prod_def)

lemma sorted_same_layer:
  fixes l :: int
  shows "sorted (map fst xs) \<Longrightarrow> sorted (map (\<lambda>x. (l, fst x :: nat)) xs)"
  by (induction xs) (auto simp: less_eq_prod_def)

lemma map_fst_enumerate_sorted: "sorted (map fst (enumerate n xs))"
  by (simp add: map_fst_enumerate)

lemma stable_sort_by_position:
  "map snd (sort_key (\<lambda>(pos, (ol, layer)). (layer :: int, pos :: nat)) (enumerate 0 m))
     = sort_key snd (m :: ('a \<times> int) list)"
proof -
  let ?f = "\<lambda>(pos, (ol, layer)). (layer :: int, pos :: nat)"
  let ?em = "enumerate 0 m"
  let ?S = "sort_key ?f ?em"
  have f_fst: "\<And>x. fst (?f x) = snd (snd x)" by (auto split: prod.splits)
  show ?thesis
  proof (rule properties_for_sort_key [symmetric])
    show "mset (map snd ?S) = mset m"
    proof -
      have e: "map snd ?em = m" by simp
      have "mset (map snd ?S) = image_mset snd (mset ?em)" by simp
      also have "\<dots> = mset (map snd ?em)" by (rule mset_map [symmetric])
      finally show ?thesis unfolding e .
    qed
  next
    have "sorted (map ?f ?S)" by (rule sorted_sort_key)
    then have "sorted (map (\<lambda>x. fst (?f x)) ?S)" by (rule sorted_fst_of_lex)
    then show "sorted (map snd (map snd ?S))" by (simp add: f_fst comp_def)
  next
    fix k assume "k \<in> set (map snd ?S)"
    let ?P = "\<lambda>x :: 'a \<times> int. snd k = snd x"
    let ?Q = "\<lambda>x :: nat \<times> 'a \<times> int. snd k = snd (snd x)"
    have "filter ?P (map snd ?S) = map snd (filter ?Q ?S)"
      by (simp add: filter_map comp_def)
    also have "filter ?Q ?S = sort_key ?f (filter ?Q ?em)"
      by (simp add: filter_sort)
    also have "\<dots> = filter ?Q ?em"
    proof (rule sort_key_id_if_sorted)
      have "sorted (map fst (filter ?Q ?em))"
        by (rule sorted_filter) (rule map_fst_enumerate_sorted)
      then have a: "sorted (map (\<lambda>x. (snd k, fst x)) (filter ?Q ?em))"
        by (rule sorted_same_layer)
      have b: "map ?f (filter ?Q ?em) = map (\<lambda>x. (snd k, fst x)) (filter ?Q ?em)"
        by (rule map_cong) (auto split: prod.splits)
      show "sorted (map ?f (filter ?Q ?em))" unfolding b by (rule a)
    qed
    also have "map snd (filter ?Q ?em) = filter ?P (map snd ?em)"
      by (simp only: filter_map comp_def)
    also have "map snd ?em = m" by simp
    finally show "filter ?P (map snd ?S) = filter ?P m" .
  qed
qed


lemma sort_orderlines_spec:
  assumes "distinct (map fst (layersMap p))"
  shows "sort_orderlines p = spec_visiting_order (layersMap p)"
proof -
  have "dict_of (sort_key snd (layersMap p)) = sort_key snd (layersMap p)"
    using assms by (intro dict_of_distinct distinct_keys_sort)
  then have "sort_orderlines p = map fst (sort_key snd (layersMap p))"
    by (simp add: sort_orderlines_def)
  also have "\<dots> = map fst (map snd (sort_key (\<lambda>(pos, (ol, layer)). (layer, pos))
                                  (enumerate 0 (layersMap p))))"
    by (simp only: stable_sort_by_position)
  also have "\<dots> = spec_visiting_order (layersMap p)"
    by (simp add: spec_visiting_order_def comp_def case_prod_unfold)
  finally show ?thesis .
qed

lemma length_sort_orderlines:
  assumes "distinct (map fst (layersMap p))"
  shows "length (sort_orderlines p) = length (layersMap p)"
proof -
  have "dict_of (sort_key snd (layersMap p)) = sort_key snd (layersMap p)"
    using assms by (intro dict_of_distinct distinct_keys_sort)
  then show ?thesis by (simp add: sort_orderlines_def)
qed

lemma zip_butlast_tl:
  "zip (butlast so) (tl so) = map (\<lambda>i. (so ! i, so ! Suc i)) [0..<length so - 1]"
  by (rule nth_equalityI) (simp_all add: nth_butlast nth_tl)

lemma consecutive_sum:
  "sum_list (map (\<lambda>(i, j). g i j) (zip (butlast so) (tl so)))
     = (\<Sum>i<length so - 1. (g (so ! i) (so ! Suc i) :: real))"
proof -
  have "sum_list (map (\<lambda>(i, j). g i j) (zip (butlast so) (tl so)))
          = sum_list (map (\<lambda>i. g (so ! i) (so ! Suc i)) [0..<length so - 1])"
    by (simp add: zip_butlast_tl comp_def)
  also have "\<dots> = (\<Sum>i<length so - 1. g (so ! i) (so ! Suc i))"
    by (simp add: interv_sum_list_conv_sum_set_nat atLeast0LessThan)
  finally show ?thesis .
qed

lemma route_cost_spec:
  assumes "so \<noteq> []"
  shows "dists ! 0 ! location (hd so) + dists ! location (last so) ! 0
           + sum_list (map (\<lambda>(i, j). dists ! location i ! location j)
                         (zip (butlast so) (tl so)))
         = spec_route_cost dists so"
  using assms
  consecutive_sum [of "\<lambda>i j. dists ! location i ! location j" so]
  by (simp add: spec_route_cost_def hd_conv_nth last_conv_nth)

lemma dists_at_in:
  assumes "in_matrix dists i" "in_matrix dists j"
  shows "dists_at dists i j = Inr (dists ! i ! j)"
proof -
  have i: "i < length dists" using assms(1) by (simp add: in_matrix_def)
  then have "dists ! i \<in> set dists" by simp
  then have "j < length (dists ! i)"
    using assms(2) by (simp add: in_matrix_def list_all_iff)
  then show ?thesis using i by (simp add: dists_at_def)
qed

lemma consecutive_lookups:
  assumes "\<forall>ol\<in>set so. in_matrix dists (location ol)"
  shows "map (\<lambda>(i, j). dists_at dists (location i) (location j)) (zip (butlast so) (tl so))
           = map Inr (map (\<lambda>(i, j). dists ! location i ! location j)
                        (zip (butlast so) (tl so)))"
proof -
  have "dists_at dists (location i) (location j) = Inr (dists ! location i ! location j)"
    if "(i, j) \<in> set (zip (butlast so) (tl so))" for i j
  proof -
    have "i \<in> set (butlast so)" using that by (rule set_zip_leftD)
    then have i: "i \<in> set so" by (rule in_set_butlastD)
    have "j \<in> set (tl so)" using that by (rule set_zip_rightD)
    then have j: "j \<in> set so" by (cases so) auto
    show ?thesis using assms i j by (simp add: dists_at_in)
  qed
  then show ?thesis by auto
qed

lemma py_sum_exact:
  "list_all (\<lambda>(x, y). num_add E x y = x + y) (sum_adds acc cs)
     \<Longrightarrow> py_sum E acc (map Inr cs) = Inr (acc + sum_list cs)"
  by (induction cs arbitrary: acc) (auto simp: add.assoc)

lemma set_sort_orderlines:
  assumes "distinct (map fst (layersMap p))"
  shows "set (sort_orderlines p) = fst ` set (layersMap p)"
proof -
  have "dict_of (sort_key snd (layersMap p)) = sort_key snd (layersMap p)"
    using assms by (intro dict_of_distinct distinct_keys_sort)
  then show ?thesis by (simp add: sort_orderlines_def)
qed

text \<open>One pallet of the loop of \<^verbatim>\<open>getCost\<close>, in the arithmetic of the matrix.\<close>

lemma getCost_loop_step:
  assumes ne: "sort_orderlines p \<noteq> []"
    and valid: "\<forall>ol\<in>set (sort_orderlines p). in_matrix dists (location ol)"
    and depot: "in_matrix dists 0"
  shows "getCost_loop E tot (p # solution) dists =
           (case py_sum E 0 (map Inr (map (\<lambda>(i, j). dists ! location i ! location j)
                               (zip (butlast (sort_orderlines p)) (tl (sort_orderlines p))))) of
              Inl e \<Rightarrow> Inl e
            | Inr s \<Rightarrow>
                getCost_loop E
                  (num_add E
                     (num_add E tot
                        (num_add E (dists ! 0 ! location (hd (sort_orderlines p)))
                                   (dists ! location (last (sort_orderlines p)) ! 0))) s)
                  solution dists)"
proof -
  have h: "hd (sort_orderlines p) \<in> set (sort_orderlines p)"
    and l: "last (sort_orderlines p) \<in> set (sort_orderlines p)"
    using ne by simp_all
  have a: "dists_at dists 0 (location (hd (sort_orderlines p)))
             = Inr (dists ! 0 ! location (hd (sort_orderlines p)))"
    using depot valid h by (simp add: dists_at_in)
  have b: "dists_at dists (location (last (sort_orderlines p))) 0
             = Inr (dists ! location (last (sort_orderlines p)) ! 0)"
    using depot valid l by (simp add: dists_at_in)
  note c = consecutive_lookups [OF valid]
  show ?thesis
    unfolding getCost_loop.simps Let_def a b c using ne by simp
qed

lemma getCost_loop_spec:
  assumes "\<forall>p\<in>set solution. layersMap p \<noteq> [] \<and> distinct (map fst (layersMap p))
             \<and> (\<forall>ol\<in>fst ` set (layersMap p). in_matrix dists (location ol))"
    and "in_matrix dists 0"
    and "list_all (\<lambda>(x, y). num_add E x y = x + y) (additions tot solution dists)"
  shows "getCost_loop E tot solution dists = Inr (tot + spec_cost solution dists)"
  using assms
proof (induction solution arbitrary: tot)
  case Nil
  then show ?case by (simp add: spec_cost_def)
next
  case (Cons p solution)
  let ?so = "sort_orderlines p"
  let ?a = "dists ! 0 ! location (hd ?so)"
  let ?b = "dists ! location (last ?so) ! 0"
  let ?cs = "map (\<lambda>(i, j). dists ! location i ! location j) (zip (butlast ?so) (tl ?so))"
  have d: "distinct (map fst (layersMap p))" and ne: "layersMap p \<noteq> []"
    and v: "\<forall>ol\<in>fst ` set (layersMap p). in_matrix dists (location ol)"
    using Cons.prems(1) by auto
  have so: "?so = spec_visiting_order (layersMap p)"
    using d by (rule sort_orderlines_spec)
  have "length ?so = length (layersMap p)"
    using d by (rule length_sort_orderlines)
  then have ne': "?so \<noteq> []" using ne by auto
  have valid: "\<forall>ol\<in>set ?so. in_matrix dists (location ol)"
    using v set_sort_orderlines [OF d] by simp
  have rest: "\<forall>p\<in>set solution. layersMap p \<noteq> [] \<and> distinct (map fst (layersMap p))
             \<and> (\<forall>ol\<in>fst ` set (layersMap p). in_matrix dists (location ol))"
    using Cons.prems(1) by simp
  have adds: "list_all (\<lambda>(x, y). num_add E x y = x + y) (route_adds tot dists ?so)"
    and adds': "list_all (\<lambda>(x, y). num_add E x y = x + y)
                  (additions (tot + spec_route_cost dists ?so) solution dists)"
    using Cons.prems(3) by (simp_all add: Let_def so [symmetric])
  have e1: "num_add E ?a ?b = ?a + ?b"
    and e2: "num_add E tot (?a + ?b) = tot + (?a + ?b)"
    and e3: "list_all (\<lambda>(x, y). num_add E x y = x + y) (sum_adds 0 ?cs)"
    and e4: "num_add E (tot + (?a + ?b)) (sum_list ?cs) = tot + (?a + ?b) + sum_list ?cs"
    using adds by (simp_all add: route_adds_def Let_def)
  have s: "py_sum E 0 (map Inr ?cs) = Inr (sum_list ?cs)"
    using py_sum_exact [OF e3] by simp
  have r: "tot + (?a + ?b) + sum_list ?cs = tot + spec_route_cost dists ?so"
    using route_cost_spec [OF ne', of dists] by simp
  have "getCost_loop E tot (p # solution) dists
          = getCost_loop E (tot + spec_route_cost dists ?so) solution dists"
    unfolding getCost_loop_step [OF ne' valid Cons.prems(2)] s
    by (simp add: e1 e2 e4 r)
  also have "\<dots> = Inr (tot + spec_route_cost dists ?so + spec_cost solution dists)"
    using Cons.IH [OF rest Cons.prems(2) adds'] .
  finally show ?case by (simp add: spec_cost_def so add.assoc)
qed




section \<open>The store and the loop bodies\<close>

lemma upd_fields [simp]:
  "heap (upd r f w) = (heap w)(r := f (heap w r))"
  "pallet_of (upd r f w) = pallet_of w"
  "next_ref (upd r f w) = next_ref w"
  "rng_pos (upd r f w) = rng_pos w"
  "clock_pos (upd r f w) = clock_pos w"
  "history (upd r f w) = history w"
  "packer_log (upd r f w) = packer_log w"
  by (simp_all add: upd_def)

lemma call_packer_fields [simp]:
  "fst (call_packer E c p w) = dubePacker E c p"
  "heap (snd (call_packer E c p w)) = heap w"
  "pallet_of (snd (call_packer E c p w)) = pallet_of w"
  "next_ref (snd (call_packer E c p w)) = next_ref w"
  "rng_pos (snd (call_packer E c p w)) = rng_pos w"
  "clock_pos (snd (call_packer E c p w)) = clock_pos w"
  "history (snd (call_packer E c p w)) = history w"
  "packer_log (snd (call_packer E c p w)) = packer_log w @ [(c, p)]"
  by (simp_all add: call_packer_def)

lemma merge_into_frame [simp]:
  "pallet_of (merge_into h d pc lm w) = pallet_of w"
  "next_ref (merge_into h d pc lm w) = next_ref w"
  "rng_pos (merge_into h d pc lm w) = rng_pos w"
  "clock_pos (merge_into h d pc lm w) = clock_pos w"
  "history (merge_into h d pc lm w) = history w"
  "packer_log (merge_into h d pc lm w) = packer_log w"
  by (simp_all add: merge_into_def Let_def)

lemma merge_into_other [simp]: "p \<noteq> h \<Longrightarrow> heap (merge_into h d pc lm w) p = heap w p"
  by (simp add: merge_into_def Let_def)

lemma merge_into_host:
  "h \<noteq> d \<Longrightarrow> heap (merge_into h d pc lm w) h =
     (heap w h)\<lparr>cases := pc, layersMap := lm,
                weight := weight (heap w h) + weight (heap w d),
                volume := volume (heap w h) + volume (heap w d),
                orderlines := orderlines (heap w h) \<union> orderlines (heap w d)\<rparr>"
  by (simp add: merge_into_def Let_def)

lemma merge_into_bounds [simp]:
  "maxWeight (heap (merge_into h d pc lm w) p) = maxWeight (heap w p)"
  "maxVolume (heap (merge_into h d pc lm w) p) = maxVolume (heap w p)"
  "active (heap (merge_into h d pc lm w) p) = active (heap w p)"
  by (simp_all add: merge_into_def Let_def)

lemma merge_into_load [simp]:
  "weight (heap (merge_into h d pc lm w) h) = weight (heap w h) + weight (heap w d)"
  "volume (heap (merge_into h d pc lm w) h) = volume (heap w h) + volume (heap w d)"
  by (simp_all add: merge_into_def Let_def)

lemma repoint_fields [simp]:
  "heap (repoint h d w) = heap w"
  "next_ref (repoint h d w) = next_ref w"
  "rng_pos (repoint h d w) = rng_pos w"
  "clock_pos (repoint h d w) = clock_pos w"
  "history (repoint h d w) = history w"
  "packer_log (repoint h d w) = packer_log w"
  "pallet_of (repoint h d w) ol =
     (if ol \<in> orderlines (heap w d) then Some h else pallet_of w ol)"
  by (simp_all add: repoint_def)

lemma build_pallet_cases:
  "build_pallet E S ol ps w =
     (if fst (dubePacker E (Pallet E (pallet_size S) (pallet_max_weight S)) (Inl ol))
      then Inr (ps @ [next_ref w],
             w\<lparr>heap := (heap w)(next_ref w :=
                    (Pallet E (pallet_size S) (pallet_max_weight S))
                      \<lparr>weight := ol_weight ol, volume := ol_volume ol, orderlines := {ol},
                       cases := fst (snd (dubePacker E (Pallet E (pallet_size S) (pallet_max_weight S)) (Inl ol))),
                       layersMap := snd (snd (dubePacker E (Pallet E (pallet_size S) (pallet_max_weight S)) (Inl ol)))\<rparr>),
               pallet_of := (pallet_of w)(ol \<mapsto> next_ref w),
               next_ref := Suc (next_ref w),
               packer_log := packer_log w @ [(Pallet E (pallet_size S) (pallet_max_weight S), Inl ol)]\<rparr>)
      else Inl AssertionError)"
  by (simp add: build_pallet_def Let_def call_packer_def upd_def Pallet_def split: prod.splits)

lemma build_all_abort:
  assumes "ol \<in> set ols"
    and "\<not> fst (dubePacker E (Pallet E (pallet_size S) (pallet_max_weight S)) (Inl ol))"
  shows "build_all E S ols ps w = Inl AssertionError"
  using assms
proof (induction ols arbitrary: ps w)
  case Nil
  then show ?case by simp
next
  case (Cons a ols)
  show ?case
  proof (cases "fst (dubePacker E (Pallet E (pallet_size S) (pallet_max_weight S)) (Inl a))")
    case True
    then have "a \<noteq> ol" using Cons.prems by auto
    then have "ol \<in> set ols" using Cons.prems by simp
    then show ?thesis using True Cons.IH Cons.prems(2) by (simp add: build_pallet_cases)
  next
    case False
    then show ?thesis by (simp add: build_pallet_cases)
  qed
qed


lemma absorb_cases:
  "absorb h d pc lm ps w =
     (if d \<in> set ps then Inr (remove1 d ps, repoint h d (merge_into h d pc lm w))
      else Inl ValueError)"
  by (simp add: absorb_def Let_def)

lemma merge_body_cases:
  assumes "pallet_of w (origin e) = Some a" and "pallet_of w (endp e) = Some b"
  shows "merge_body E e ps w =
     (if a = b then Inr (ps, w)
      else if volume (heap w a) + volume (heap w b) > maxVolume (heap w a) then Inr (ps, w)
      else if weight (heap w a) + weight (heap w b) > maxWeight (heap w a) then Inr (ps, w)
      else if fst (dubePacker E (heap w a) (Inr (heap w b)))
      then absorb a b (fst (snd (dubePacker E (heap w a) (Inr (heap w b)))))
             (snd (snd (dubePacker E (heap w a) (Inr (heap w b))))) ps
             (w\<lparr>packer_log := packer_log w @ [(heap w a, Inr (heap w b))]\<rparr>)
      else if fst (dubePacker E (heap w b) (Inr (heap w a)))
      then absorb b a (fst (snd (dubePacker E (heap w b) (Inr (heap w a)))))
             (snd (snd (dubePacker E (heap w b) (Inr (heap w a))))) ps
             (w\<lparr>packer_log := packer_log w @ [(heap w a, Inr (heap w b)),
                                               (heap w b, Inr (heap w a))]\<rparr>)
      else Inr (ps, w\<lparr>packer_log := packer_log w @ [(heap w a, Inr (heap w b)),
                                                    (heap w b, Inr (heap w a))]\<rparr>))"
  using assms
  by (simp add: merge_body_def call_packer_def split: prod.splits)

section \<open>A failed construction aborts\<close>

text \<open>
  C9. When the packing procedure fails on a single order line and a new, empty pallet in the
  construction loop, \<^verbatim>\<open>heuristic\<close> and \<^verbatim>\<open>sequential\<close> raise (the assertion fails):
  neither returns a solution.
\<close>

theorem C9_fatal_precondition:
  assumes "ol \<in> set (s_orderlines S)"
    and "\<not> fst (dubePacker E (Pallet E (pallet_size S) (pallet_max_weight S)) (Inl ol))"
  shows "heuristic E S beta w = Inl AssertionError \<and> sequential E S w = Inl AssertionError"
  using build_all_abort [OF assms] by (simp add: heuristic_def sequential_def)



theorem C9_fatal_precondition_witness:
  "ex_line 1 \<in> set (s_orderlines ex_heavy_solver)
   \<and> \<not> fst (dubePacker ex_picky_env
              (Pallet ex_picky_env (pallet_size ex_heavy_solver) (pallet_max_weight ex_heavy_solver))
              (Inl (ex_line 1)))
   \<and> heuristic ex_picky_env ex_heavy_solver (1 / 2) ex_world = Inl AssertionError
   \<and> sequential ex_picky_env ex_heavy_solver ex_world = Inl AssertionError"
proof -
  have a: "ex_line 1 \<in> set (s_orderlines ex_heavy_solver)"
    by (simp add: ex_heavy_solver_def ex_solver2_def)
  have b: "\<not> fst (dubePacker ex_picky_env
              (Pallet ex_picky_env (pallet_size ex_heavy_solver) (pallet_max_weight ex_heavy_solver))
              (Inl (ex_line 1)))"
    by (simp add: ex_heavy_solver_def ex_solver2_def ex_picky_env_def ex_env_def
        ex_picky_packer_def Pallet_def ex_line_def)
  show ?thesis
    using a b C9_fatal_precondition [OF a b, of "1 / 2" ex_world] by simp
qed

section \<open>Capacity\<close>

lemma build_pallet_cap_inv:
  assumes "cap_inv E S ps w"
    and "ol_weight ol \<le> pallet_max_weight S"
    and "ol_volume ol \<le> sizeVolume E (pallet_size S)"
    and "build_pallet E S ol ps w = Inr (ps', w')"
  shows "cap_inv E S ps' w'"
proof -
  from assms(4) have ps': "ps' = ps @ [next_ref w]"
    and nr: "next_ref w' = Suc (next_ref w)"
    and po: "pallet_of w' = (pallet_of w)(ol \<mapsto> next_ref w)"
    and old: "\<And>p. p \<noteq> next_ref w \<Longrightarrow> heap w' p = heap w p"
    and new: "maxWeight (heap w' (next_ref w)) = pallet_max_weight S"
      "maxVolume (heap w' (next_ref w)) = sizeVolume E (pallet_size S)"
      "weight (heap w' (next_ref w)) = ol_weight ol"
      "volume (heap w' (next_ref w)) = ol_volume ol"
    by (auto simp: build_pallet_cases Pallet_def split: if_splits)
  have u: "uniform_capacity E S w"
    and l: "\<And>p. p \<in> set ps \<Longrightarrow> p < next_ref w \<and> within_capacity (heap w p)"
    using assms(1) by (auto simp: cap_inv_def)
  have "uniform_capacity E S w'"
    unfolding uniform_capacity_def
  proof (intro conjI allI impI)
    fix p assume "p < next_ref w'"
    then consider "p = next_ref w" | "p < next_ref w" using nr by linarith
    then show "maxWeight (heap w' p) = pallet_max_weight S"
      using new u old by cases (auto simp: uniform_capacity_def)
  next
    fix p assume "p < next_ref w'"
    then consider "p = next_ref w" | "p < next_ref w" using nr by linarith
    then show "maxVolume (heap w' p) = sizeVolume E (pallet_size S)"
      using new u old by cases (auto simp: uniform_capacity_def)
  next
    fix l p assume "pallet_of w' l = Some p"
    then show "p < next_ref w'"
      using u po nr by (auto simp: uniform_capacity_def less_Suc_eq split: if_splits)
  qed
  moreover have "p < next_ref w' \<and> within_capacity (heap w' p)" if "p \<in> set ps'" for p
  proof (cases "p = next_ref w")
    case True
    then show ?thesis using new nr assms(2,3) by (simp add: within_capacity_def)
  next
    case False
    then have "p \<in> set ps" using that ps' by simp
    then show ?thesis using l [of p] old [OF False] nr by simp
  qed
  ultimately show ?thesis by (simp add: cap_inv_def)
qed

lemma build_all_cap_inv:
  assumes "\<forall>ol\<in>set ols. ol_weight ol \<le> pallet_max_weight S
                        \<and> ol_volume ol \<le> sizeVolume E (pallet_size S)"
    and "cap_inv E S ps w"
    and "build_all E S ols ps w = Inr (ps', w')"
  shows "cap_inv E S ps' w'"
  using assms
proof (induction ols arbitrary: ps w)
  case Nil
  then show ?case by simp
next
  case (Cons ol ols)
  from Cons.prems(3) obtain ps1 w1
    where b: "build_pallet E S ol ps w = Inr (ps1, w1)"
      and r: "build_all E S ols ps1 w1 = Inr (ps', w')"
    by (auto split: sum.splits)
  have "cap_inv E S ps1 w1"
    using build_pallet_cap_inv [OF Cons.prems(2) _ _ b] Cons.prems(1) by simp
  then show ?case using Cons.IH [OF _ _ r] Cons.prems(1) by simp
qed

lemma absorb_cap_inv:
  assumes "cap_inv E S ps w"
    and "h < next_ref w" and "d < next_ref w"
    and "weight (heap w h) + weight (heap w d) \<le> pallet_max_weight S"
    and "volume (heap w h) + volume (heap w d) \<le> sizeVolume E (pallet_size S)"
    and "heap w1 = heap w" and "pallet_of w1 = pallet_of w" and "next_ref w1 = next_ref w"
    and "absorb h d pc lm ps w1 = Inr (ps', w')"
  shows "cap_inv E S ps' w'"
proof -
  from assms(9) have ps': "ps' = remove1 d ps"
    and w': "w' = repoint h d (merge_into h d pc lm w1)"
    by (auto simp: absorb_cases split: if_splits)
  have u: "uniform_capacity E S w"
    and l: "\<And>p. p \<in> set ps \<Longrightarrow> p < next_ref w \<and> within_capacity (heap w p)"
    using assms(1) by (auto simp: cap_inv_def)
  have nr: "next_ref w' = next_ref w" using w' assms(8) by simp
  have "uniform_capacity E S w'"
    using u assms(2,6,7,8) unfolding uniform_capacity_def w'
    by (auto split: if_splits)
  moreover have "p < next_ref w' \<and> within_capacity (heap w' p)" if "p \<in> set ps'" for p
  proof -
    have p: "p \<in> set ps" using that ps' by (metis notin_set_remove1)
    show ?thesis
    proof (cases "p = h")
      case True
      have "maxWeight (heap w h) = pallet_max_weight S"
        "maxVolume (heap w h) = sizeVolume E (pallet_size S)"
        using u assms(2) by (auto simp: uniform_capacity_def)
      then show ?thesis
        using True assms(4,5,6) l [OF p] nr by (simp add: w' within_capacity_def)
    next
      case False
      then show ?thesis using l [OF p] nr assms(6) by (simp add: w')
    qed
  qed
  ultimately show ?thesis by (simp add: cap_inv_def)
qed

lemma cap_inv_log:
  "cap_inv E S ps (w\<lparr>packer_log := x\<rparr>) = cap_inv E S ps w"
  "cap_inv E S ps (w\<lparr>rng_pos := y\<rparr>) = cap_inv E S ps w"
  by (simp_all add: cap_inv_def uniform_capacity_def)

lemma merge_body_cap_inv:
  assumes "cap_inv E S ps w" and "merge_body E e ps w = Inr (ps', w')"
  shows "cap_inv E S ps' w'"
proof -
  from assms(2) obtain a b
    where a: "pallet_of w (origin e) = Some a" and b: "pallet_of w (endp e) = Some b"
    by (auto simp: merge_body_def split: option.splits)
  have u: "uniform_capacity E S w" using assms(1) by (simp add: cap_inv_def)
  then have lt: "a < next_ref w" "b < next_ref w"
    using a b by (auto simp: uniform_capacity_def)
  then have caps: "maxWeight (heap w a) = pallet_max_weight S"
    "maxVolume (heap w a) = sizeVolume E (pallet_size S)"
    using u by (auto simp: uniform_capacity_def)
  note body = merge_body_cases [OF a b, of E ps]
  consider (same) "ps' = ps" "w' = w"
    | (logged) "ps' = ps" "\<exists>x. w' = w\<lparr>packer_log := x\<rparr>"
    | (forward) w1 pc lm where
        "weight (heap w a) + weight (heap w b) \<le> maxWeight (heap w a)"
        "volume (heap w a) + volume (heap w b) \<le> maxVolume (heap w a)"
        "heap w1 = heap w" "pallet_of w1 = pallet_of w" "next_ref w1 = next_ref w"
        "absorb a b pc lm ps w1 = Inr (ps', w')"
    | (reverse) w1 pc lm where
        "weight (heap w a) + weight (heap w b) \<le> maxWeight (heap w a)"
        "volume (heap w a) + volume (heap w b) \<le> maxVolume (heap w a)"
        "heap w1 = heap w" "pallet_of w1 = pallet_of w" "next_ref w1 = next_ref w"
        "absorb b a pc lm ps w1 = Inr (ps', w')"
  proof (cases "a = b \<or> volume (heap w a) + volume (heap w b) > maxVolume (heap w a)
                \<or> weight (heap w a) + weight (heap w b) > maxWeight (heap w a)")
    case True
    then have "ps' = ps" "w' = w" using assms(2) by (auto simp: body split: if_splits)
    then show ?thesis by (rule same)
  next
    case False
    show ?thesis
    proof (cases "fst (dubePacker E (heap w a) (Inr (heap w b)))")
      case True
      show ?thesis
        by (rule forward [where ?w1.0 = "w\<lparr>packer_log := packer_log w @ [(heap w a, Inr (heap w b))]\<rparr>"])
           (use False True assms(2) in \<open>auto simp: body\<close>)
    next
      case nf: False
      show ?thesis
      proof (cases "fst (dubePacker E (heap w b) (Inr (heap w a)))")
        case True
        show ?thesis
          by (rule reverse [where ?w1.0 = "w\<lparr>packer_log := packer_log w @ [(heap w a, Inr (heap w b)), (heap w b, Inr (heap w a))]\<rparr>"])
             (use False nf True assms(2) in \<open>auto simp: body\<close>)
      next
        case False2: False
        have "ps' = ps" "\<exists>x. w' = w\<lparr>packer_log := x\<rparr>"
          using False nf False2 assms(2) by (auto simp: body)
        then show ?thesis by (rule logged)
      qed
    qed
  qed
  then show ?thesis
  proof cases
    case same
    then show ?thesis using assms(1) by simp
  next
    case logged
    then show ?thesis using assms(1) by (auto simp: cap_inv_log)
  next
    case forward
    show ?thesis
      by (rule absorb_cap_inv [OF assms(1) lt(1) lt(2) _ _ forward(3,4,5,6)])
         (use forward(1,2) caps in simp_all)
  next
    case reverse
    show ?thesis
      by (rule absorb_cap_inv [OF assms(1) lt(2) lt(1) _ _ reverse(3,4,5,6)])
         (use reverse(1,2) caps in \<open>simp_all add: add.commute\<close>)
  qed
qed

lemma sweep_cap_inv:
  assumes "cap_inv E S ps w" and "sweep E beta n arr ps w = Inr (ps', w')"
  shows "cap_inv E S ps' w'"
  using assms
proof (induction n arbitrary: arr ps w)
  case 0
  then show ?case by simp
next
  case (Suc n)
  from Suc.prems(2) obtain e arr' ps1 w1
    where m: "merge_body E e ps (w\<lparr>rng_pos := Suc (rng_pos w)\<rparr>) = Inr (ps1, w1)"
      and r: "sweep E beta n arr' ps1 w1 = Inr (ps', w')"
    by (auto split: sum.splits)
  have "cap_inv E S ps (w\<lparr>rng_pos := Suc (rng_pos w)\<rparr>)"
    using Suc.prems(1) by (simp add: cap_inv_log)
  then have "cap_inv E S ps1 w1" using m by (rule merge_body_cap_inv)
  then show ?case using r by (rule Suc.IH)
qed

lemma pair_body_cases:
  "pair_body E (i, j) w =
     (if active (heap w i) \<and> active (heap w j)
         \<and> volume (heap w i) + volume (heap w j) \<le> maxVolume (heap w i)
         \<and> weight (heap w i) + weight (heap w j) \<le> maxWeight (heap w i)
      then if fst (dubePacker E (heap w i) (Inr (heap w j)))
           then repoint i j
                  (upd j (\<lambda>x. x\<lparr>active := False\<rparr>)
                     (merge_into i j (fst (snd (dubePacker E (heap w i) (Inr (heap w j)))))
                        (snd (snd (dubePacker E (heap w i) (Inr (heap w j)))))
                        (w\<lparr>packer_log := packer_log w @ [(heap w i, Inr (heap w j))]\<rparr>)))
           else w\<lparr>packer_log := packer_log w @ [(heap w i, Inr (heap w j))]\<rparr>
      else w)"
  by (simp add: pair_body_def Let_def call_packer_def split: prod.splits)

lemma pair_body_within:
  assumes "\<forall>p\<in>P. within_capacity (heap w p)"
  shows "\<forall>p\<in>P. within_capacity (heap (pair_body E pair w) p)"
proof
  fix p assume "p \<in> P"
  then have p: "within_capacity (heap w p)" using assms by simp
  obtain i j where pair: "pair = (i, j)" by (cases pair)
  show "within_capacity (heap (pair_body E pair w) p)"
  proof (cases "p = i")
    case True
    then show ?thesis
      using p by (simp add: pair_body_cases pair within_capacity_def)
  next
    case False
    then show ?thesis
      using p by (auto simp: pair_body_cases pair within_capacity_def)
  qed
qed

lemma pairs_within:
  assumes "\<forall>p\<in>P. within_capacity (heap w p)"
  shows "\<forall>p\<in>P. within_capacity (heap (foldl (\<lambda>w pair. pair_body E pair w) w pairs) p)"
  using assms
proof (induction pairs arbitrary: w)
  case Nil
  then show ?case by simp
next
  case (Cons pair pairs)
  show ?case using Cons.IH [OF pair_body_within [OF Cons.prems]] by simp
qed


section \<open>Well-formed working lists\<close>

lemma wf_disjoint:
  assumes "well_formed L ps w" "p \<in> set ps" "q \<in> set ps" "p \<noteq> q"
  shows "orderlines (heap w p) \<inter> orderlines (heap w q) = {}"
proof -
  have "\<And>ol. ol \<in> orderlines (heap w p) \<Longrightarrow> pallet_of w ol = Some p"
    "\<And>ol. ol \<in> orderlines (heap w q) \<Longrightarrow> pallet_of w ol = Some q"
    using assms(1-3) by (auto simp: well_formed_def)
  then show ?thesis using assms(4) by fastforce
qed

lemma wf_bound:
  assumes "well_formed L ps w" "ol \<in> L"
  obtains p where "p \<in> set ps" "pallet_of w ol = Some p" "ol \<in> orderlines (heap w p)"
  using assms by (auto simp: well_formed_def)

lemma wf_frame:
  assumes "heap w1 = heap w" "pallet_of w1 = pallet_of w" "next_ref w1 = next_ref w"
  shows "well_formed L ps w1 = well_formed L ps w"
  using assms by (simp add: well_formed_def)

lemma absorb_effect:
  fixes pc :: "pcase list" and lm :: layers
  assumes well_formed: "well_formed L ps w" and h: "h \<in> set ps" and d: "d \<in> set ps" and hd: "h \<noteq> d"
    and fr: "heap w1 = heap w" "pallet_of w1 = pallet_of w" "next_ref w1 = next_ref w"
  defines "w' \<equiv> repoint h d (merge_into h d pc lm w1)"
  shows "absorb h d pc lm ps w1 = Inr (remove1 d ps, w')"
    and "merge_conserves h d ps w (remove1 d ps) w'"
    and "well_formed L (remove1 d ps) w'"
proof -
  let ?H = "orderlines (heap w h)" and ?D = "orderlines (heap w d)"
  have dist: "distinct ps" using well_formed by (simp add: well_formed_def)
  have set': "set (remove1 d ps) = set ps - {d}" using dist by simp
  have other: "heap w' p = heap w p" if "p \<noteq> h" for p
    using that fr by (simp add: w'_def)
  have host: "heap w' h = (heap w h)\<lparr>cases := pc, layersMap := lm,
                weight := weight (heap w h) + weight (heap w d),
                volume := volume (heap w h) + volume (heap w d),
                orderlines := ?H \<union> ?D\<rparr>"
    using hd fr by (simp add: w'_def merge_into_host)
  have po: "pallet_of w' ol = (if ol \<in> ?D then Some h else pallet_of w ol)" for ol
    using hd fr by (simp add: w'_def)
  have nr: "next_ref w' = next_ref w" using fr by (simp add: w'_def)
  have props: "p < next_ref w" "orderlines (heap w p) \<noteq> {}" "orderlines (heap w p) \<subseteq> L"
    "\<And>ol. ol \<in> orderlines (heap w p) \<Longrightarrow> pallet_of w ol = Some p"
    if "p \<in> set ps" for p
    using well_formed that by (auto simp: well_formed_def)
  show "absorb h d pc lm ps w1 = Inr (remove1 d ps, w')"
    using d by (simp add: absorb_cases w'_def)
  have ols: "orderlines (heap w' p) = (if p = h then ?H \<union> ?D else orderlines (heap w p))" for p
    using other [of p] host by simp
  have union: "(\<Union>p\<in>set (remove1 d ps). orderlines (heap w' p))
                 = (\<Union>p\<in>set ps. orderlines (heap w p))"
  proof
    show "(\<Union>p\<in>set (remove1 d ps). orderlines (heap w' p))
            \<subseteq> (\<Union>p\<in>set ps. orderlines (heap w p))"
      using h d by (auto simp: set' ols split: if_splits)
    show "(\<Union>p\<in>set ps. orderlines (heap w p))
            \<subseteq> (\<Union>p\<in>set (remove1 d ps). orderlines (heap w' p))"
    proof
      fix ol assume "ol \<in> (\<Union>p\<in>set ps. orderlines (heap w p))"
      then obtain p where p: "p \<in> set ps" "ol \<in> orderlines (heap w p)" by auto
      show "ol \<in> (\<Union>p\<in>set (remove1 d ps). orderlines (heap w' p))"
      proof (cases "p = d")
        case True
        then have "ol \<in> orderlines (heap w' h)" using p by (simp add: ols)
        then show ?thesis using h hd by (auto simp: set')
      next
        case False
        then have "ol \<in> orderlines (heap w' p)" using p by (auto simp: ols)
        then show ?thesis using p False by (auto simp: set')
      qed
    qed
  qed
  have well_formed': "well_formed L (remove1 d ps) w'"
    unfolding well_formed_def
  proof (intro conjI ballI)
    show "distinct (remove1 d ps)" using dist by simp
  next
    fix p assume "p \<in> set (remove1 d ps)"
    then have p: "p \<in> set ps" "p \<noteq> d" by (simp_all add: set')
    show "p < next_ref w'" using props(1) [OF p(1)] nr by simp
    show "orderlines (heap w' p) \<noteq> {}" using props(2) [OF p(1)] props(2) [OF h] by (simp add: ols)
    show "orderlines (heap w' p) \<subseteq> L"
      using props(3) [OF p(1)] props(3) [OF h] props(3) [OF d] by (simp add: ols)
    fix ol assume ol: "ol \<in> orderlines (heap w' p)"
    show "pallet_of w' ol = Some p"
    proof (cases "ol \<in> ?D")
      case True
      then have "pallet_of w ol = Some d" using props(4) [OF d] by simp
      moreover have "p \<noteq> h \<Longrightarrow> pallet_of w ol = Some p"
        using ol props(4) [OF p(1)] by (simp add: ols)
      ultimately have "p = h" using p(2) by auto
      then show ?thesis using True by (simp add: po)
    next
      case False
      then have "ol \<in> orderlines (heap w p)" using ol by (auto simp: ols split: if_splits)
      then show ?thesis using props(4) [OF p(1)] False by (simp add: po)
    qed
  next
    fix ol assume "ol \<in> L"
    with well_formed obtain q where q: "q \<in> set ps" "pallet_of w ol = Some q" "ol \<in> orderlines (heap w q)"
      by (rule wf_bound)
    show "\<exists>p\<in>set (remove1 d ps). pallet_of w' ol = Some p \<and> ol \<in> orderlines (heap w' p)"
    proof (cases "ol \<in> ?D")
      case True
      then have "pallet_of w' ol = Some h \<and> ol \<in> orderlines (heap w' h)"
        by (simp add: po ols)
      then show ?thesis using h hd by (auto simp: set')
    next
      case False
      then have "q \<noteq> d" using q(3) by auto
      moreover have "pallet_of w' ol = Some q \<and> ol \<in> orderlines (heap w' q)"
        using False q by (auto simp: po ols)
      ultimately show ?thesis using q(1) by (auto simp: set')
    qed
  qed
  show "well_formed L (remove1 d ps) w'" by (rule well_formed')
  have disj: "\<forall>p\<in>set (remove1 d ps). \<forall>q\<in>set (remove1 d ps). p \<noteq> q \<longrightarrow>
           orderlines (heap w' p) \<inter> orderlines (heap w' q) = {}"
    using wf_disjoint [OF well_formed'] by blast
  show "merge_conserves h d ps w (remove1 d ps) w'"
    unfolding merge_conserves_def
    using h hd union disj host other po props(4) [OF d]
    by (simp add: set')
qed


lemma wf_log [simp]:
  "well_formed L ps (w\<lparr>packer_log := x\<rparr>) = well_formed L ps w"
  "well_formed L ps (w\<lparr>rng_pos := y\<rparr>) = well_formed L ps w"
  by (simp_all add: well_formed_def)

lemma build_pallet_wf:
  assumes well_formed: "well_formed L ps w" and new: "ol \<notin> L"
    and ok: "fst (dubePacker E (Pallet E (pallet_size S) (pallet_max_weight S)) (Inl ol))"
  shows "\<exists>w'. build_pallet E S ol ps w = Inr (ps @ [next_ref w], w')
              \<and> well_formed (insert ol L) (ps @ [next_ref w]) w'"
proof -
  let ?p = "next_ref w"
  obtain w' where b: "build_pallet E S ol ps w = Inr (ps @ [?p], w')"
    and nr: "next_ref w' = Suc ?p"
    and po: "pallet_of w' = (pallet_of w)(ol \<mapsto> ?p)"
    and old: "\<And>p. p \<noteq> ?p \<Longrightarrow> heap w' p = heap w p"
    and ols: "orderlines (heap w' ?p) = {ol}"
    using ok by (simp add: build_pallet_cases)
  have props: "p < next_ref w" "orderlines (heap w p) \<noteq> {}" "orderlines (heap w p) \<subseteq> L"
    "\<And>x. x \<in> orderlines (heap w p) \<Longrightarrow> pallet_of w x = Some p"
    if "p \<in> set ps" for p
    using well_formed that by (auto simp: well_formed_def)
  have fresh: "?p \<notin> set ps" using props(1) by auto
  have "well_formed (insert ol L) (ps @ [?p]) w'"
    unfolding well_formed_def
  proof (intro conjI ballI)
    show "distinct (ps @ [?p])" using well_formed fresh by (simp add: well_formed_def)
  next
    fix p assume p: "p \<in> set (ps @ [?p])"
    show "p < next_ref w'" using p props(1) nr by (auto simp: less_Suc_eq)
    show "orderlines (heap w' p) \<noteq> {}"
      using p props(2) old ols fresh by (cases "p = ?p") auto
    show "orderlines (heap w' p) \<subseteq> insert ol L"
      using p props(3) old ols fresh by (cases "p = ?p") auto
    fix x assume x: "x \<in> orderlines (heap w' p)"
    show "pallet_of w' x = Some p"
    proof (cases "p = ?p")
      case True
      then show ?thesis using x ols po by simp
    next
      case False
      then have "p \<in> set ps" "x \<in> orderlines (heap w p)" using p x old by auto
      then have "pallet_of w x = Some p" "x \<in> L" using props(3,4) by auto
      then show ?thesis using new po by auto
    qed
  next
    fix x assume "x \<in> insert ol L"
    then consider "x = ol" | "x \<in> L" "x \<noteq> ol" using new by auto
    then show "\<exists>p\<in>set (ps @ [?p]). pallet_of w' x = Some p \<and> x \<in> orderlines (heap w' p)"
    proof cases
      case 1
      then show ?thesis using po ols by simp
    next
      case 2
      with well_formed obtain q where q: "q \<in> set ps" "pallet_of w x = Some q" "x \<in> orderlines (heap w q)"
        by (auto elim: wf_bound)
      then have "q \<noteq> ?p" using fresh by auto
      then show ?thesis using q 2 po old by auto
    qed
  qed
  then show ?thesis using b by blast
qed

lemma build_all_wf:
  assumes "well_formed L ps w" and "distinct ols" and "set ols \<inter> L = {}"
    and "\<forall>ol\<in>set ols. fst (dubePacker E (Pallet E (pallet_size S) (pallet_max_weight S)) (Inl ol))"
  shows "\<exists>ps' w'. build_all E S ols ps w = Inr (ps', w') \<and> well_formed (set ols \<union> L) ps' w'
                  \<and> length ps' = length ps + length ols"
  using assms
proof (induction ols arbitrary: L ps w)
  case Nil
  then show ?case by simp
next
  case (Cons ol ols)
  have "ol \<notin> L" using Cons.prems(3) by auto
  moreover have "fst (dubePacker E (Pallet E (pallet_size S) (pallet_max_weight S)) (Inl ol))"
    using Cons.prems(4) by simp
  ultimately obtain w1 where b: "build_pallet E S ol ps w = Inr (ps @ [next_ref w], w1)"
    and wf1: "well_formed (insert ol L) (ps @ [next_ref w]) w1"
    using build_pallet_wf [OF Cons.prems(1)] by blast
  have "distinct ols" "set ols \<inter> insert ol L = {}"
    "\<forall>ol\<in>set ols. fst (dubePacker E (Pallet E (pallet_size S) (pallet_max_weight S)) (Inl ol))"
    using Cons.prems(2,3,4) by auto
  from Cons.IH [OF wf1 this] obtain ps' w'
    where r: "build_all E S ols (ps @ [next_ref w]) w1 = Inr (ps', w')"
      and well_formed': "well_formed (set ols \<union> insert ol L) ps' w'"
      and len: "length ps' = length (ps @ [next_ref w]) + length ols"
    by blast
  have "set ols \<union> insert ol L = set (ol # ols) \<union> L" by auto
  then show ?case using b r well_formed' len by auto
qed

lemma wf_empty: "well_formed {} [] w"
  by (simp add: well_formed_def)

text \<open>The outcome of the loop body in a well-formed state.\<close>

lemma merge_body_wf:
  assumes well_formed: "well_formed L ps w" and ends: "origin e \<in> L" "endp e \<in> L"
  shows "\<exists>ps' w'. merge_body E e ps w = Inr (ps', w') \<and> well_formed L ps' w'
           \<and> (\<forall>x\<in>L. \<forall>y\<in>L. pallet_of w x = pallet_of w y \<longrightarrow> pallet_of w' x = pallet_of w' y)"
proof -
  from well_formed ends(1) obtain a where a: "a \<in> set ps" "pallet_of w (origin e) = Some a"
    by (auto elim: wf_bound)
  from well_formed ends(2) obtain b where b: "b \<in> set ps" "pallet_of w (endp e) = Some b"
    by (auto elim: wf_bound)
  note body = merge_body_cases [OF a(2) b(2), of E ps]
  have mono: "\<forall>x\<in>L. \<forall>y\<in>L. pallet_of w x = pallet_of w y \<longrightarrow> pallet_of w' x = pallet_of w' y"
    if "merge_conserves h d ps w ps' w'" "d \<in> set ps" for h d ps' w'
  proof (intro ballI impI)
    fix x y assume xy: "x \<in> L" "y \<in> L" "pallet_of w x = pallet_of w y"
    have iff: "z \<in> orderlines (heap w d) \<longleftrightarrow> pallet_of w z = Some d" if "z \<in> L" for z
    proof -
      from well_formed that obtain q where "q \<in> set ps" "pallet_of w z = Some q" "z \<in> orderlines (heap w q)"
        by (auto elim: wf_bound)
      moreover have "z \<in> orderlines (heap w d) \<Longrightarrow> pallet_of w z = Some d"
        using well_formed \<open>d \<in> set ps\<close> by (auto simp: well_formed_def)
      ultimately show ?thesis by auto
    qed
    have "x \<in> orderlines (heap w d) \<longleftrightarrow> y \<in> orderlines (heap w d)"
      using iff xy by simp
    then show "pallet_of w' x = pallet_of w' y"
      using that(1) xy(3) unfolding merge_conserves_def by (cases "x \<in> orderlines (heap w d)") auto
  qed
  show ?thesis
  proof (cases "a = b \<or> volume (heap w a) + volume (heap w b) > maxVolume (heap w a)
                \<or> weight (heap w a) + weight (heap w b) > maxWeight (heap w a)")
    case True
    then have "merge_body E e ps w = Inr (ps, w)" by (auto simp: body)
    then show ?thesis using well_formed by auto
  next
    case False
    then have ab: "a \<noteq> b" by simp
    show ?thesis
    proof (cases "fst (dubePacker E (heap w a) (Inr (heap w b)))")
      case True
      let ?w1 = "w\<lparr>packer_log := packer_log w @ [(heap w a, Inr (heap w b))]\<rparr>"
      let ?pc = "fst (snd (dubePacker E (heap w a) (Inr (heap w b))))"
      let ?lm = "snd (snd (dubePacker E (heap w a) (Inr (heap w b))))"
      let ?w' = "repoint a b (merge_into a b ?pc ?lm ?w1)"
      note eff = absorb_effect [OF well_formed a(1) b(1) ab, of ?w1 ?pc ?lm]
      have "merge_body E e ps w = absorb a b ?pc ?lm ps ?w1"
        using False True by (simp add: body)
      then have "merge_body E e ps w = Inr (remove1 b ps, ?w')"
        using eff(1) by simp
      moreover have "well_formed L (remove1 b ps) ?w'" using eff(3) by simp
      moreover have "\<forall>x\<in>L. \<forall>y\<in>L. pallet_of w x = pallet_of w y
                       \<longrightarrow> pallet_of ?w' x = pallet_of ?w' y"
        by (rule mono [OF _ b(1)]) (use eff(2) in simp)
      ultimately show ?thesis by blast
    next
      case nf: False
      let ?w2 = "w\<lparr>packer_log := packer_log w @ [(heap w a, Inr (heap w b)),
                                                     (heap w b, Inr (heap w a))]\<rparr>"
      show ?thesis
      proof (cases "fst (dubePacker E (heap w b) (Inr (heap w a)))")
        case True
        let ?pc = "fst (snd (dubePacker E (heap w b) (Inr (heap w a))))"
        let ?lm = "snd (snd (dubePacker E (heap w b) (Inr (heap w a))))"
        let ?w' = "repoint b a (merge_into b a ?pc ?lm ?w2)"
        note eff = absorb_effect [OF well_formed b(1) a(1) ab [symmetric], of ?w2 ?pc ?lm]
        have "merge_body E e ps w = absorb b a ?pc ?lm ps ?w2"
          using False nf True by (simp add: body)
        then have "merge_body E e ps w = Inr (remove1 a ps, ?w')"
          using eff(1) by simp
        moreover have "well_formed L (remove1 a ps) ?w'" using eff(3) by simp
        moreover have "\<forall>x\<in>L. \<forall>y\<in>L. pallet_of w x = pallet_of w y
                         \<longrightarrow> pallet_of ?w' x = pallet_of ?w' y"
          by (rule mono [OF _ a(1)]) (use eff(2) in simp)
        ultimately show ?thesis by blast
      next
        case False2: False
        have "merge_body E e ps w = Inr (ps, ?w2)"
          using False nf False2 by (simp add: body)
        then show ?thesis using well_formed by simp
      qed
    qed
  qed
qed

section \<open>A merge that fails both ways changes nothing\<close>

text \<open>
  C8. For an edge between two different pallets that passes the two bound checks: when the
  packing procedure fails on (host, hosted), it is called once more, on (hosted, host), and
  on no other pair; when this second call succeeds the merge is made the other way round;
  when it fails too, the working list, the store of pallets (weight, volume, cases, layer
  assignment and order lines of every pallet) and the \<^verbatim>\<open>pallet\<close> attribute of every
  order line are as before, only the log of the two calls has grown, and the loop goes on
  with the next edge of the generator.
\<close>

theorem C8_failed_merge_atomic:
  assumes "pallet_of w (origin e) = Some host" and "pallet_of w (endp e) = Some hosted"
    and "host \<noteq> hosted"
    and "volume (heap w host) + volume (heap w hosted) \<le> maxVolume (heap w host)"
    and "weight (heap w host) + weight (heap w hosted) \<le> maxWeight (heap w host)"
    and "\<not> fst (dubePacker E (heap w host) (Inr (heap w hosted)))"
  shows "(fst (dubePacker E (heap w hosted) (Inr (heap w host))) \<longrightarrow>
            merge_body E e palletsList w =
              absorb hosted host
                (fst (snd (dubePacker E (heap w hosted) (Inr (heap w host)))))
                (snd (snd (dubePacker E (heap w hosted) (Inr (heap w host))))) palletsList
                (w\<lparr>packer_log := packer_log w @ [(heap w host, Inr (heap w hosted)),
                                                  (heap w hosted, Inr (heap w host))]\<rparr>))
       \<and> (\<not> fst (dubePacker E (heap w hosted) (Inr (heap w host))) \<longrightarrow>
            merge_body E e palletsList w =
              Inr (palletsList,
                   w\<lparr>packer_log := packer_log w @ [(heap w host, Inr (heap w hosted)),
                                                     (heap w hosted, Inr (heap w host))]\<rparr>)
            \<and> (\<forall>w0 beta n arr arr'.
                  w = w0\<lparr>rng_pos := Suc (rng_pos w0)\<rparr>
                  \<and> bra_next E beta (random E (rng_pos w0)) arr = Inr (e, arr') \<longrightarrow>
                  sweep E beta (Suc n) arr palletsList w0 =
                    sweep E beta n arr' palletsList
                      (w\<lparr>packer_log := packer_log w @ [(heap w host, Inr (heap w hosted)),
                                                        (heap w hosted, Inr (heap w host))]\<rparr>)))"
proof -
  let ?w' = "w\<lparr>packer_log := packer_log w @ [(heap w host, Inr (heap w hosted)),
                                               (heap w hosted, Inr (heap w host))]\<rparr>"
  note body = merge_body_cases [OF assms(1,2), of E palletsList]
  have retry: "merge_body E e palletsList w =
              absorb hosted host
                (fst (snd (dubePacker E (heap w hosted) (Inr (heap w host)))))
                (snd (snd (dubePacker E (heap w hosted) (Inr (heap w host))))) palletsList ?w'"
    if "fst (dubePacker E (heap w hosted) (Inr (heap w host)))"
    using that assms(3-6) by (simp add: body)
  have skip: "merge_body E e palletsList w = Inr (palletsList, ?w')"
    if "\<not> fst (dubePacker E (heap w hosted) (Inr (heap w host)))"
    using that assms(3-6) by (simp add: body)
  have continue: "sweep E beta (Suc n) arr palletsList w0 = sweep E beta n arr' palletsList ?w'"
    if "\<not> fst (dubePacker E (heap w hosted) (Inr (heap w host)))"
      and "w = w0\<lparr>rng_pos := Suc (rng_pos w0)\<rparr>"
      and "bra_next E beta (random E (rng_pos w0)) arr = Inr (e, arr')"
    for w0 beta n arr arr'
  proof -
    have "sweep E beta (Suc n) arr palletsList w0 =
            (case merge_body E e palletsList w of
               Inl e \<Rightarrow> Inl e
             | Inr (palletsList', w') \<Rightarrow> sweep E beta n arr' palletsList' w')"
      using that(2,3) by simp
    then show ?thesis using skip [OF that(1)] by simp
  qed
  show ?thesis using retry skip continue by blast
qed



lemma ex_picky_built:
  "\<exists>ps w. build_all ex_picky_env ex_solver2 (s_orderlines ex_solver2) [] ex_world = Inr (ps, w)
      \<and> ps = [0, 1]
      \<and> pallet_of w (origin (ex_edge 1 2)) = Some 0 \<and> pallet_of w (endp (ex_edge 1 2)) = Some 1
      \<and> volume (heap w 0) + volume (heap w 1) \<le> maxVolume (heap w 0)
      \<and> weight (heap w 0) + weight (heap w 1) \<le> maxWeight (heap w 0)
      \<and> \<not> fst (dubePacker ex_picky_env (heap w 0) (Inr (heap w 1)))
      \<and> \<not> fst (dubePacker ex_picky_env (heap w 1) (Inr (heap w 0)))"
  by (simp add: ex_solver2_def ex_picky_env_def ex_env_def ex_world_def build_pallet_cases
      Pallet_def ex_picky_packer_def ex_packer_def ex_line_def ex_edge_def)

theorem C8_failed_merge_atomic_witness:
  "\<exists>ps w. build_all ex_picky_env ex_solver2 (s_orderlines ex_solver2) [] ex_world = Inr (ps, w)
      \<and> pallet_of w (origin (ex_edge 1 2)) = Some 0 \<and> pallet_of w (endp (ex_edge 1 2)) = Some 1
      \<and> (0::nat) \<noteq> 1
      \<and> volume (heap w 0) + volume (heap w 1) \<le> maxVolume (heap w 0)
      \<and> weight (heap w 0) + weight (heap w 1) \<le> maxWeight (heap w 0)
      \<and> \<not> fst (dubePacker ex_picky_env (heap w 0) (Inr (heap w 1)))
      \<and> \<not> fst (dubePacker ex_picky_env (heap w 1) (Inr (heap w 0)))
      \<and> merge_body ex_picky_env (ex_edge 1 2) ps w =
           Inr (ps, w\<lparr>packer_log := packer_log w @ [(heap w 0, Inr (heap w 1)),
                                                      (heap w 1, Inr (heap w 0))]\<rparr>)"
proof -
  from ex_picky_built obtain ps w
    where b: "build_all ex_picky_env ex_solver2 (s_orderlines ex_solver2) [] ex_world = Inr (ps, w)"
      and h: "pallet_of w (origin (ex_edge 1 2)) = Some 0"
        "pallet_of w (endp (ex_edge 1 2)) = Some 1" "(0::nat) \<noteq> 1"
        "volume (heap w 0) + volume (heap w 1) \<le> maxVolume (heap w 0)"
        "weight (heap w 0) + weight (heap w 1) \<le> maxWeight (heap w 0)"
        "\<not> fst (dubePacker ex_picky_env (heap w 0) (Inr (heap w 1)))"
      and r: "\<not> fst (dubePacker ex_picky_env (heap w 1) (Inr (heap w 0)))"
    by auto
  from C8_failed_merge_atomic [OF h, of ps] r
  have "merge_body ex_picky_env (ex_edge 1 2) ps w =
           Inr (ps, w\<lparr>packer_log := packer_log w @ [(heap w 0, Inr (heap w 1)),
                                                      (heap w 1, Inr (heap w 0))]\<rparr>)"
    by simp
  then show ?thesis using b h r by blast
qed

section \<open>Returned pallets are within their bounds\<close>

text \<open>
  C1. When every order line alone fits the configured bounds (weight at most
  \<^verbatim>\<open>pallet_max_weight\<close>, volume at most the volume of \<^verbatim>\<open>pallet_size\<close>) and every pallet
  created so far has this configuration, every pallet of a solution returned by
  \<^verbatim>\<open>heuristic\<close> or by \<^verbatim>\<open>sequential\<close> has a weight at most its \<open>maxWeight\<close> and a volume
  at most its \<open>maxVolume\<close>. The checks before a merge compare with the bounds of the host
  alone, also for the merge the other way round; the bounds being the same for all pallets,
  the sum fits the other pallet as well.
\<close>

theorem C1_capacity_invariant:
  assumes "\<forall>ol\<in>set (s_orderlines S). ol_weight ol \<le> pallet_max_weight S
                                  \<and> ol_volume ol \<le> sizeVolume E (pallet_size S)"
    and "uniform_capacity E S w"
  shows "(heuristic E S beta w = Inr (solution, w') \<longrightarrow>
            (\<forall>p\<in>set solution. weight (heap w' p) \<le> maxWeight (heap w' p)
                              \<and> volume (heap w' p) \<le> maxVolume (heap w' p)))
       \<and> (sequential E S w = Inr (solution2, w2) \<longrightarrow>
            (\<forall>p\<in>set solution2. weight (heap w2 p) \<le> maxWeight (heap w2 p)
                               \<and> volume (heap w2 p) \<le> maxVolume (heap w2 p)))"
proof (intro conjI impI)
  have start: "cap_inv E S [] w" using assms(2) by (simp add: cap_inv_def)
  {
    assume "heuristic E S beta w = Inr (solution, w')"
    then obtain ps w1
      where b: "build_all E S (s_orderlines S) [] w = Inr (ps, w1)"
        and s: "sweep E beta (length (savingsList S)) (savingsList S) ps w1 = Inr (solution, w')"
      by (auto simp: heuristic_def split: sum.splits)
    have "cap_inv E S ps w1" using assms(1) start b by (rule build_all_cap_inv)
    then have "cap_inv E S solution w'" using s by (rule sweep_cap_inv)
    then show "\<forall>p\<in>set solution. weight (heap w' p) \<le> maxWeight (heap w' p)
                              \<and> volume (heap w' p) \<le> maxVolume (heap w' p)"
      by (simp add: cap_inv_def within_capacity_def)
  }
  {
    assume "sequential E S w = Inr (solution2, w2)"
    then obtain ps w1
      where b: "build_all E S (s_orderlines S) [] w = Inr (ps, w1)"
        and w2: "w2 = foldl (\<lambda>w pair. pair_body E pair w) w1
                   (permutations2 (sort_key (\<lambda>p. - strength (hd (cases (heap w1 p)))) ps))"
        and sol: "set solution2 \<subseteq> set ps"
      by (auto simp: sequential_def Let_def split: sum.splits if_splits)
    have "cap_inv E S ps w1" using assms(1) start b by (rule build_all_cap_inv)
    then have "\<forall>p\<in>set ps. within_capacity (heap w1 p)" by (simp add: cap_inv_def)
    then have "\<forall>p\<in>set ps. within_capacity (heap w2 p)" unfolding w2 by (rule pairs_within)
    then show "\<forall>p\<in>set solution2. weight (heap w2 p) \<le> maxWeight (heap w2 p)
                               \<and> volume (heap w2 p) \<le> maxVolume (heap w2 p)"
      using sol by (auto simp: within_capacity_def)
  }
qed


lemma ex_heuristic_runs:
  "\<exists>sol w. heuristic ex_env ex_solver2 (1 / 2) ex_world = Inr (sol, w) \<and> sol = [0]"
  by (simp add: heuristic_def savingsList_def ex_solver2_def ex_env_def ex_world_def
      build_pallet_cases Pallet_def ex_packer_def ex_line_def ex_edge_def
      bra_next_def py_log_def py_int_def pop_def merge_body_cases absorb_cases dists_at_def
      merge_into_def repoint_def upd_def Let_def)

lemma ex_sequential_runs:
  "\<exists>sol w. sequential ex_env ex_solver2 ex_world = Inr (sol, w) \<and> sol = [1]"
  by (simp add: sequential_def ex_solver2_def ex_env_def ex_world_def build_pallet_cases
      Pallet_def ex_packer_def ex_line_def permutations2_def pair_body_cases upd_def
      merge_into_def repoint_def Let_def)

theorem C1_capacity_invariant_witness:
  "list_all (\<lambda>ol. ol_weight ol \<le> pallet_max_weight ex_solver2
                \<and> ol_volume ol \<le> sizeVolume ex_env (pallet_size ex_solver2))
     (s_orderlines ex_solver2)
   \<and> uniform_capacity ex_env ex_solver2 ex_world
   \<and> (\<exists>sol w. heuristic ex_env ex_solver2 (1 / 2) ex_world = Inr (sol, w) \<and> sol = [0]
         \<and> weight (heap w 0) \<le> maxWeight (heap w 0) \<and> volume (heap w 0) \<le> maxVolume (heap w 0))
   \<and> (\<exists>sol w. sequential ex_env ex_solver2 ex_world = Inr (sol, w) \<and> sol = [1]
         \<and> weight (heap w 1) \<le> maxWeight (heap w 1) \<and> volume (heap w 1) \<le> maxVolume (heap w 1))"
proof -
  have fit: "\<forall>ol\<in>set (s_orderlines ex_solver2).
               ol_weight ol \<le> pallet_max_weight ex_solver2
               \<and> ol_volume ol \<le> sizeVolume ex_env (pallet_size ex_solver2)"
    by (simp add: ex_solver2_def ex_env_def ex_line_def)
  have u: "uniform_capacity ex_env ex_solver2 ex_world"
    by (simp add: uniform_capacity_def ex_world_def)
  from ex_heuristic_runs obtain sol w
    where h: "heuristic ex_env ex_solver2 (1 / 2) ex_world = Inr (sol, w)" "sol = [0]" by blast
  from ex_sequential_runs obtain sol2 w2
    where s: "sequential ex_env ex_solver2 ex_world = Inr (sol2, w2)" "sol2 = [1]" by blast
  from C1_capacity_invariant [OF fit u, of "1 / 2" sol w sol2 w2] h s
  have "weight (heap w 0) \<le> maxWeight (heap w 0) \<and> volume (heap w 0) \<le> maxVolume (heap w 0)"
    "weight (heap w2 1) \<le> maxWeight (heap w2 1) \<and> volume (heap w2 1) \<le> maxVolume (heap w2 1)"
    by simp_all
  then show ?thesis using fit u h s by (auto simp: list_all_iff)
qed

section \<open>A successful merge conserves the order lines\<close>

text \<open>
  C2. In a well-formed state of the merging loop (the state after the construction loop is
  one, and the body of the loop keeps it so), for an edge whose two pallets differ and pass
  the bound checks: when the packing procedure succeeds on (host, hosted), and likewise when
  it fails there and succeeds on (hosted, host), the merge removes the absorbed pallet from
  the working list and keeps the surviving one, leaves the union of the order lines of the
  listed pallets as it was, with no order line on two listed pallets, sets the weight and
  the volume of the surviving pallet to the sums of the two, gives it the order lines of
  both, points every order line of the absorbed pallet to the surviving one and leaves the
  other order lines and pallets as they were.
\<close>

theorem C2_merge_conservation:
  assumes "well_formed L ps w" and "origin e \<in> L" and "endp e \<in> L"
    and "pallet_of w (origin e) = Some a" and "pallet_of w (endp e) = Some b"
    and "a \<noteq> b"
    and "volume (heap w a) + volume (heap w b) \<le> maxVolume (heap w a)"
    and "weight (heap w a) + weight (heap w b) \<le> maxWeight (heap w a)"
  shows "(fst (dubePacker E (heap w a) (Inr (heap w b))) \<longrightarrow>
            (\<exists>w'. merge_body E e ps w = Inr (remove1 b ps, w')
                 \<and> merge_conserves a b ps w (remove1 b ps) w'
                 \<and> well_formed L (remove1 b ps) w'))
       \<and> (\<not> fst (dubePacker E (heap w a) (Inr (heap w b)))
            \<and> fst (dubePacker E (heap w b) (Inr (heap w a))) \<longrightarrow>
            (\<exists>w'. merge_body E e ps w = Inr (remove1 a ps, w')
                 \<and> merge_conserves b a ps w (remove1 a ps) w'
                 \<and> well_formed L (remove1 a ps) w'))"
proof -
  from assms(1,2,4) have a: "a \<in> set ps" by (auto elim: wf_bound)
  from assms(1,3,5) have b: "b \<in> set ps" by (auto elim: wf_bound)
  note body = merge_body_cases [OF assms(4,5), of E ps]
  have forward: "\<exists>w'. merge_body E e ps w = Inr (remove1 b ps, w')
                 \<and> merge_conserves a b ps w (remove1 b ps) w' \<and> well_formed L (remove1 b ps) w'"
    if "fst (dubePacker E (heap w a) (Inr (heap w b)))"
  proof -
    let ?w1 = "w\<lparr>packer_log := packer_log w @ [(heap w a, Inr (heap w b))]\<rparr>"
    let ?pc = "fst (snd (dubePacker E (heap w a) (Inr (heap w b))))"
    let ?lm = "snd (snd (dubePacker E (heap w a) (Inr (heap w b))))"
    note eff = absorb_effect [OF assms(1) a b assms(6), of ?w1 ?pc ?lm]
    have "merge_body E e ps w = absorb a b ?pc ?lm ps ?w1"
      using that assms(6,7,8) by (simp add: body)
    then have "merge_body E e ps w = Inr (remove1 b ps, repoint a b (merge_into a b ?pc ?lm ?w1))"
      using eff(1) by simp
    then show ?thesis using eff(2,3) by simp
  qed
  have reverse: "\<exists>w'. merge_body E e ps w = Inr (remove1 a ps, w')
                 \<and> merge_conserves b a ps w (remove1 a ps) w' \<and> well_formed L (remove1 a ps) w'"
    if "\<not> fst (dubePacker E (heap w a) (Inr (heap w b)))"
      and "fst (dubePacker E (heap w b) (Inr (heap w a)))"
  proof -
    let ?w2 = "w\<lparr>packer_log := packer_log w @ [(heap w a, Inr (heap w b)),
                                                   (heap w b, Inr (heap w a))]\<rparr>"
    let ?pc = "fst (snd (dubePacker E (heap w b) (Inr (heap w a))))"
    let ?lm = "snd (snd (dubePacker E (heap w b) (Inr (heap w a))))"
    note eff = absorb_effect [OF assms(1) b a assms(6) [symmetric], of ?w2 ?pc ?lm]
    have "merge_body E e ps w = absorb b a ?pc ?lm ps ?w2"
      using that assms(6,7,8) by (simp add: body)
    then have "merge_body E e ps w = Inr (remove1 a ps, repoint b a (merge_into b a ?pc ?lm ?w2))"
      using eff(1) by simp
    then show ?thesis using eff(2,3) by simp
  qed
  show ?thesis using forward reverse by blast
qed

lemma ex_built:
  "\<exists>ps w. build_all ex_env ex_solver2 (s_orderlines ex_solver2) [] ex_world = Inr (ps, w)
      \<and> ps = [0, 1]
      \<and> pallet_of w (origin (ex_edge 1 2)) = Some 0 \<and> pallet_of w (endp (ex_edge 1 2)) = Some 1
      \<and> volume (heap w 0) + volume (heap w 1) \<le> maxVolume (heap w 0)
      \<and> weight (heap w 0) + weight (heap w 1) \<le> maxWeight (heap w 0)
      \<and> fst (dubePacker ex_env (heap w 0) (Inr (heap w 1)))"
  by (simp add: ex_solver2_def ex_env_def ex_world_def build_pallet_cases
      Pallet_def ex_packer_def ex_line_def ex_edge_def)

lemma ex_order_built:
  "\<exists>ps w. build_all ex_order_env ex_solver2 (s_orderlines ex_solver2) [] ex_world = Inr (ps, w)
      \<and> ps = [0, 1]
      \<and> pallet_of w (origin (ex_edge 1 2)) = Some 0 \<and> pallet_of w (endp (ex_edge 1 2)) = Some 1
      \<and> volume (heap w 0) + volume (heap w 1) \<le> maxVolume (heap w 0)
      \<and> weight (heap w 0) + weight (heap w 1) \<le> maxWeight (heap w 0)
      \<and> \<not> fst (dubePacker ex_order_env (heap w 0) (Inr (heap w 1)))
      \<and> fst (dubePacker ex_order_env (heap w 1) (Inr (heap w 0)))"
  by (simp add: ex_solver2_def ex_order_env_def ex_env_def ex_world_def build_pallet_cases
      Pallet_def ex_order_packer_def ex_packer_def ex_line_def ex_edge_def)

lemma ex_lines_pack:
  "distinct (s_orderlines ex_solver2)"
  "origin (ex_edge 1 2) \<in> set (s_orderlines ex_solver2)"
  "endp (ex_edge 1 2) \<in> set (s_orderlines ex_solver2)"
  "\<forall>ol\<in>set (s_orderlines ex_solver2).
     fst (dubePacker ex_env (Pallet ex_env (pallet_size ex_solver2) (pallet_max_weight ex_solver2)) (Inl ol))"
  "\<forall>ol\<in>set (s_orderlines ex_solver2).
     fst (dubePacker ex_order_env (Pallet ex_order_env (pallet_size ex_solver2) (pallet_max_weight ex_solver2)) (Inl ol))"
  by (simp_all add: ex_solver2_def ex_env_def ex_order_env_def ex_packer_def ex_order_packer_def
      ex_line_def ex_edge_def)

theorem C2_merge_conservation_witness:
  "(\<exists>ps w w'. build_all ex_env ex_solver2 (s_orderlines ex_solver2) [] ex_world = Inr (ps, w)
      \<and> well_formed (set (s_orderlines ex_solver2)) ps w
      \<and> fst (dubePacker ex_env (heap w 0) (Inr (heap w 1)))
      \<and> merge_body ex_env (ex_edge 1 2) ps w = Inr (remove1 1 ps, w')
      \<and> merge_conserves 0 1 ps w (remove1 1 ps) w')
   \<and> (\<exists>ps w w'. build_all ex_order_env ex_solver2 (s_orderlines ex_solver2) [] ex_world = Inr (ps, w)
      \<and> well_formed (set (s_orderlines ex_solver2)) ps w
      \<and> \<not> fst (dubePacker ex_order_env (heap w 0) (Inr (heap w 1)))
      \<and> fst (dubePacker ex_order_env (heap w 1) (Inr (heap w 0)))
      \<and> merge_body ex_order_env (ex_edge 1 2) ps w = Inr (remove1 0 ps, w')
      \<and> merge_conserves 1 0 ps w (remove1 0 ps) w')"
proof
  from ex_built obtain ps w
    where b: "build_all ex_env ex_solver2 (s_orderlines ex_solver2) [] ex_world = Inr (ps, w)"
      and h: "pallet_of w (origin (ex_edge 1 2)) = Some 0"
        "pallet_of w (endp (ex_edge 1 2)) = Some 1"
        "volume (heap w 0) + volume (heap w 1) \<le> maxVolume (heap w 0)"
        "weight (heap w 0) + weight (heap w 1) \<le> maxWeight (heap w 0)"
      and f: "fst (dubePacker ex_env (heap w 0) (Inr (heap w 1)))"
    by auto
  from build_all_wf [OF wf_empty ex_lines_pack(1) _ ex_lines_pack(4), of "ex_world"] b
  have well_formed: "well_formed (set (s_orderlines ex_solver2)) ps w" by simp
  from C2_merge_conservation [OF well_formed ex_lines_pack(2,3) h(1,2) _ h(3,4), of ex_env] f
  obtain w' where "merge_body ex_env (ex_edge 1 2) ps w = Inr (remove1 1 ps, w')"
    "merge_conserves 0 1 ps w (remove1 1 ps) w'" by auto
  then show "\<exists>ps w w'. build_all ex_env ex_solver2 (s_orderlines ex_solver2) [] ex_world = Inr (ps, w)
      \<and> well_formed (set (s_orderlines ex_solver2)) ps w
      \<and> fst (dubePacker ex_env (heap w 0) (Inr (heap w 1)))
      \<and> merge_body ex_env (ex_edge 1 2) ps w = Inr (remove1 1 ps, w')
      \<and> merge_conserves 0 1 ps w (remove1 1 ps) w'"
    using b well_formed f by blast
next
  from ex_order_built obtain ps w
    where b: "build_all ex_order_env ex_solver2 (s_orderlines ex_solver2) [] ex_world = Inr (ps, w)"
      and h: "pallet_of w (origin (ex_edge 1 2)) = Some 0"
        "pallet_of w (endp (ex_edge 1 2)) = Some 1"
        "volume (heap w 0) + volume (heap w 1) \<le> maxVolume (heap w 0)"
        "weight (heap w 0) + weight (heap w 1) \<le> maxWeight (heap w 0)"
      and f: "\<not> fst (dubePacker ex_order_env (heap w 0) (Inr (heap w 1)))"
        "fst (dubePacker ex_order_env (heap w 1) (Inr (heap w 0)))"
    by auto
  from build_all_wf [OF wf_empty ex_lines_pack(1) _ ex_lines_pack(5), of "ex_world"] b
  have well_formed: "well_formed (set (s_orderlines ex_solver2)) ps w" by simp
  from C2_merge_conservation [OF well_formed ex_lines_pack(2,3) h(1,2) _ h(3,4), of ex_order_env] f
  obtain w' where "merge_body ex_order_env (ex_edge 1 2) ps w = Inr (remove1 0 ps, w')"
    "merge_conserves 1 0 ps w (remove1 0 ps) w'" by auto
  then show "\<exists>ps w w'. build_all ex_order_env ex_solver2 (s_orderlines ex_solver2) [] ex_world = Inr (ps, w)
      \<and> well_formed (set (s_orderlines ex_solver2)) ps w
      \<and> \<not> fst (dubePacker ex_order_env (heap w 0) (Inr (heap w 1)))
      \<and> fst (dubePacker ex_order_env (heap w 1) (Inr (heap w 0)))
      \<and> merge_body ex_order_env (ex_edge 1 2) ps w = Inr (remove1 0 ps, w')
      \<and> merge_conserves 1 0 ps w (remove1 0 ps) w'"
    using b well_formed f by blast
qed

section \<open>The merging loop with a packing procedure that always succeeds\<close>

lemma loaded_log [simp]:
  "loaded E S ps (w\<lparr>packer_log := x\<rparr>) = loaded E S ps w"
  "loaded E S ps (w\<lparr>rng_pos := y\<rparr>) = loaded E S ps w"
  by (simp_all add: loaded_def)

lemma joined_log [simp]:
  "joined e (w\<lparr>packer_log := x\<rparr>) = joined e w"
  "joined e (w\<lparr>rng_pos := y\<rparr>) = joined e w"
  by (simp_all add: joined_def)

lemma pallet_consistent: "consistent (Pallet E sz mw)"
  by (simp add: consistent_def Pallet_def)

lemma always_succeeds_done: "always_succeeds E \<Longrightarrow> fst (dubePacker E c payload)"
  unfolding always_succeeds_def by blast

lemma assigns_layers_line:
  assumes "assigns_layers E" "consistent c"
  shows "distinct (map fst (snd (snd (dubePacker E c (Inl ol)))))"
    and "set (map fst (snd (snd (dubePacker E c (Inl ol))))) = insert ol (orderlines c)"
  using assms unfolding assigns_layers_def by blast+

lemma assigns_layers_pallet:
  assumes "assigns_layers E" "consistent c" "consistent p"
  shows "distinct (map fst (snd (snd (dubePacker E c (Inr p)))))"
    and "set (map fst (snd (snd (dubePacker E c (Inr p))))) = orderlines c \<union> orderlines p"
  using assms unfolding assigns_layers_def by blast+

lemma build_pallet_loaded:
  assumes well_formed: "well_formed L ps w" and ld: "loaded E S ps w" and pk: "always_succeeds E"
  shows "\<exists>w'. build_pallet E S ol ps w = Inr (ps @ [next_ref w], w')
              \<and> loaded E S (ps @ [next_ref w]) w'"
proof -
  let ?p = "next_ref w"
  let ?P = "Pallet E (pallet_size S) (pallet_max_weight S)"
  have ok: "fst (dubePacker E ?P (Inl ol))" using pk by (rule always_succeeds_done)
  have keys: "distinct (map fst (snd (snd (dubePacker E ?P (Inl ol)))))"
    "set (map fst (snd (snd (dubePacker E ?P (Inl ol))))) = {ol}"
    if "assigns_layers E"
    using assigns_layers_line [OF that pallet_consistent, of E "pallet_size S" "pallet_max_weight S" ol]
    by (simp_all add: Pallet_def)
  obtain w' where b: "build_pallet E S ol ps w = Inr (ps @ [?p], w')"
    and old: "\<And>p. p \<noteq> ?p \<Longrightarrow> heap w' p = heap w p"
    and new: "maxWeight (heap w' ?p) = pallet_max_weight S"
      "maxVolume (heap w' ?p) = sizeVolume E (pallet_size S)"
      "weight (heap w' ?p) = ol_weight ol" "volume (heap w' ?p) = ol_volume ol"
      "orderlines (heap w' ?p) = {ol}"
      "layersMap (heap w' ?p) = snd (snd (dubePacker E ?P (Inl ol)))"
    using ok by (simp add: build_pallet_cases Pallet_def)
  have fresh: "?p \<notin> set ps" using well_formed by (auto simp: well_formed_def)
  have "loaded E S (ps @ [?p]) w'"
    unfolding loaded_def
  proof
    fix p assume p: "p \<in> set (ps @ [?p])"
    show "maxWeight (heap w' p) = pallet_max_weight S
        \<and> maxVolume (heap w' p) = sizeVolume E (pallet_size S)
        \<and> weight (heap w' p) = sum ol_weight (orderlines (heap w' p))
        \<and> volume (heap w' p) = sum ol_volume (orderlines (heap w' p))
        \<and> (assigns_layers E \<longrightarrow> consistent (heap w' p))"
    proof (cases "p = ?p")
      case True
      then show ?thesis using new keys by (simp add: consistent_def)
    next
      case False
      then have "p \<in> set ps" using p by simp
      then show ?thesis using ld old [OF False] by (simp add: loaded_def)
    qed
  qed
  then show ?thesis using b by blast
qed

lemma build_all_loaded:
  assumes "well_formed L ps w" and "loaded E S ps w" and "always_succeeds E"
    and "distinct ols" and "set ols \<inter> L = {}"
  shows "\<exists>ps' w'. build_all E S ols ps w = Inr (ps', w') \<and> well_formed (set ols \<union> L) ps' w'
                  \<and> loaded E S ps' w'"
  using assms(1,2,4,5)
proof (induction ols arbitrary: L ps w)
  case Nil
  then show ?case by simp
next
  case (Cons ol ols)
  have new: "ol \<notin> L" using Cons.prems(4) by auto
  have ok: "fst (dubePacker E (Pallet E (pallet_size S) (pallet_max_weight S)) (Inl ol))"
    using assms(3) by (rule always_succeeds_done)
  obtain w1 where b: "build_pallet E S ol ps w = Inr (ps @ [next_ref w], w1)"
    and wf1: "well_formed (insert ol L) (ps @ [next_ref w]) w1"
    using build_pallet_wf [OF Cons.prems(1) new ok] by blast
  have ld1: "loaded E S (ps @ [next_ref w]) w1"
    using build_pallet_loaded [OF Cons.prems(1,2) assms(3), of ol] b by simp
  have "distinct ols" "set ols \<inter> insert ol L = {}" using Cons.prems(3,4) by auto
  from Cons.IH [OF wf1 ld1 this] obtain ps' w'
    where r: "build_all E S ols (ps @ [next_ref w]) w1 = Inr (ps', w')"
      and well_formed': "well_formed (set ols \<union> insert ol L) ps' w'"
      and ld': "loaded E S ps' w'"
    by blast
  have "set ols \<union> insert ol L = set (ol # ols) \<union> L" by auto
  then show ?case using b r well_formed' ld' by auto
qed

lemma absorb_loaded:
  fixes pc :: "pcase list" and lm :: layers
  assumes well_formed: "well_formed L ps w" and fin: "finite L" and ld: "loaded E S ps w"
    and h: "h \<in> set ps" and d: "d \<in> set ps" and hd: "h \<noteq> d"
    and fr: "heap w1 = heap w" "pallet_of w1 = pallet_of w" "next_ref w1 = next_ref w"
    and keys: "assigns_layers E \<Longrightarrow> distinct (map fst lm)"
      "assigns_layers E \<Longrightarrow> set (map fst lm) = orderlines (heap w h) \<union> orderlines (heap w d)"
  shows "loaded E S (remove1 d ps) (repoint h d (merge_into h d pc lm w1))"
proof -
  let ?w' = "repoint h d (merge_into h d pc lm w1)"
  let ?H = "orderlines (heap w h)" and ?D = "orderlines (heap w d)"
  have other: "heap ?w' p = heap w p" if "p \<noteq> h" for p
    using that fr by simp
  have host: "heap ?w' h = (heap w h)\<lparr>cases := pc, layersMap := lm,
                weight := weight (heap w h) + weight (heap w d),
                volume := volume (heap w h) + volume (heap w d),
                orderlines := ?H \<union> ?D\<rparr>"
    using hd fr by (simp add: merge_into_host)
  have sub: "?H \<subseteq> L" "?D \<subseteq> L" using well_formed h d by (auto simp: well_formed_def)
  then have finHD: "finite ?H" "finite ?D" using fin by (auto intro: finite_subset)
  have disj: "?H \<inter> ?D = {}" using wf_disjoint [OF well_formed h d hd] .
  have ldh: "weight (heap w h) = sum ol_weight ?H" "volume (heap w h) = sum ol_volume ?H"
    "maxWeight (heap w h) = pallet_max_weight S"
    "maxVolume (heap w h) = sizeVolume E (pallet_size S)"
    and ldd: "weight (heap w d) = sum ol_weight ?D" "volume (heap w d) = sum ol_volume ?D"
    using ld h d by (auto simp: loaded_def)
  show ?thesis
    unfolding loaded_def
  proof
    fix p assume "p \<in> set (remove1 d ps)"
    then have p: "p \<in> set ps" by (metis notin_set_remove1)
    show "maxWeight (heap ?w' p) = pallet_max_weight S
        \<and> maxVolume (heap ?w' p) = sizeVolume E (pallet_size S)
        \<and> weight (heap ?w' p) = sum ol_weight (orderlines (heap ?w' p))
        \<and> volume (heap ?w' p) = sum ol_volume (orderlines (heap ?w' p))
        \<and> (assigns_layers E \<longrightarrow> consistent (heap ?w' p))"
    proof (cases "p = h")
      case True
      have "sum ol_weight (?H \<union> ?D) = sum ol_weight ?H + sum ol_weight ?D"
        "sum ol_volume (?H \<union> ?D) = sum ol_volume ?H + sum ol_volume ?D"
        using finHD disj by (simp_all add: sum.union_disjoint)
      then show ?thesis
        unfolding True host using ldh ldd keys by (simp add: consistent_def)
    next
      case False
      then show ?thesis using ld p other [OF False] by (simp add: loaded_def)
    qed
  qed
qed

lemma merge_body_full:
  assumes well_formed: "well_formed L ps w" and fin: "finite L" and ld: "loaded E S ps w"
    and pk: "always_succeeds E"
    and ends: "origin e \<in> L" "endp e \<in> L"
    and nonneg: "\<forall>ol\<in>L. 0 \<le> ol_weight ol \<and> 0 \<le> ol_volume ol"
    and fits: "sum ol_weight L \<le> pallet_max_weight S"
      "sum ol_volume L \<le> sizeVolume E (pallet_size S)"
  shows "\<exists>ps' w'. merge_body E e ps w = Inr (ps', w') \<and> well_formed L ps' w' \<and> loaded E S ps' w'
           \<and> joined e w'
           \<and> (\<forall>x\<in>L. \<forall>y\<in>L. pallet_of w x = pallet_of w y \<longrightarrow> pallet_of w' x = pallet_of w' y)"
proof -
  from well_formed ends(1) obtain a where a: "a \<in> set ps" "pallet_of w (origin e) = Some a"
    "origin e \<in> orderlines (heap w a)"
    by (auto elim: wf_bound)
  from well_formed ends(2) obtain b where b: "b \<in> set ps" "pallet_of w (endp e) = Some b"
    "endp e \<in> orderlines (heap w b)"
    by (auto elim: wf_bound)
  note body = merge_body_cases [OF a(2) b(2), of E ps]
  show ?thesis
  proof (cases "a = b")
    case True
    then have r: "merge_body E e ps w = Inr (ps, w)" by (simp add: body)
    have j: "joined e w" using True a(2) b(2) by (simp add: joined_def)
    have m: "\<forall>x\<in>L. \<forall>y\<in>L. pallet_of w x = pallet_of w y \<longrightarrow> pallet_of w x = pallet_of w y"
      by simp
    show ?thesis by (intro exI [of _ ps] exI [of _ w] conjI r well_formed ld j m)
  next
    case ab: False
    let ?A = "orderlines (heap w a)" and ?B = "orderlines (heap w b)"
    have sub: "?A \<subseteq> L" "?B \<subseteq> L" using well_formed a(1) b(1) by (auto simp: well_formed_def)
    then have finAB: "finite ?A" "finite ?B" using fin by (auto intro: finite_subset)
    have disj: "?A \<inter> ?B = {}" using wf_disjoint [OF well_formed a(1) b(1) ab] .
    have lda: "weight (heap w a) = sum ol_weight ?A" "volume (heap w a) = sum ol_volume ?A"
      "maxWeight (heap w a) = pallet_max_weight S"
      "maxVolume (heap w a) = sizeVolume E (pallet_size S)"
      "assigns_layers E \<longrightarrow> consistent (heap w a)"
      and ldb: "weight (heap w b) = sum ol_weight ?B" "volume (heap w b) = sum ol_volume ?B"
      "assigns_layers E \<longrightarrow> consistent (heap w b)"
      using ld a(1) b(1) by (auto simp: loaded_def)
    have "sum ol_weight (?A \<union> ?B) \<le> sum ol_weight L"
    proof (rule sum_mono2 [OF fin])
      show "?A \<union> ?B \<subseteq> L" using sub by simp
      show "\<And>x. x \<in> L - (?A \<union> ?B) \<Longrightarrow> 0 \<le> ol_weight x" using nonneg by simp
    qed
    moreover have "sum ol_weight (?A \<union> ?B) = sum ol_weight ?A + sum ol_weight ?B"
      using finAB disj by (simp add: sum.union_disjoint)
    ultimately have wok: "weight (heap w a) + weight (heap w b) \<le> maxWeight (heap w a)"
      using lda ldb fits by simp
    have "sum ol_volume (?A \<union> ?B) \<le> sum ol_volume L"
    proof (rule sum_mono2 [OF fin])
      show "?A \<union> ?B \<subseteq> L" using sub by simp
      show "\<And>x. x \<in> L - (?A \<union> ?B) \<Longrightarrow> 0 \<le> ol_volume x" using nonneg by simp
    qed
    moreover have "sum ol_volume (?A \<union> ?B) = sum ol_volume ?A + sum ol_volume ?B"
      using finAB disj by (simp add: sum.union_disjoint)
    ultimately have vok: "volume (heap w a) + volume (heap w b) \<le> maxVolume (heap w a)"
      using lda ldb fits by simp
    let ?w1 = "w\<lparr>packer_log := packer_log w @ [(heap w a, Inr (heap w b))]\<rparr>"
    let ?pc = "fst (snd (dubePacker E (heap w a) (Inr (heap w b))))"
    let ?lm = "snd (snd (dubePacker E (heap w a) (Inr (heap w b))))"
    let ?w' = "repoint a b (merge_into a b ?pc ?lm ?w1)"
    have dn: "fst (dubePacker E (heap w a) (Inr (heap w b)))"
      using pk by (rule always_succeeds_done)
    have keys: "distinct (map fst ?lm)" "set (map fst ?lm) = ?A \<union> ?B"
      if "assigns_layers E"
      using assigns_layers_pallet [OF that, of "heap w a" "heap w b"] lda(5) ldb(3) that
      by simp_all
    note eff = absorb_effect [OF well_formed a(1) b(1) ab, of ?w1 ?pc ?lm]
    have "merge_body E e ps w = absorb a b ?pc ?lm ps ?w1"
      using ab wok vok dn by (simp add: body)
    then have res: "merge_body E e ps w = Inr (remove1 b ps, ?w')"
      using eff(1) by simp
    have well_formed': "well_formed L (remove1 b ps) ?w'" using eff(3) by simp
    have ld': "loaded E S (remove1 b ps) ?w'"
      by (rule absorb_loaded [OF well_formed fin ld a(1) b(1) ab _ _ _ keys]) simp_all
    have "origin e \<notin> ?B" using a(3) disj by auto
    then have "pallet_of ?w' (origin e) = Some a" using a(2) ab by simp
    moreover have "pallet_of ?w' (endp e) = Some a" using b(3) ab by simp
    ultimately have j: "joined e ?w'" by (simp add: joined_def)
    from merge_body_wf [OF well_formed ends, of E] obtain ps2 w2
      where r2: "merge_body E e ps w = Inr (ps2, w2)"
        and m2: "\<forall>x\<in>L. \<forall>y\<in>L. pallet_of w x = pallet_of w y
                  \<longrightarrow> pallet_of w2 x = pallet_of w2 y"
      by blast
    have eq: "w2 = ?w'" using r2 res by simp
    have mono: "\<forall>x\<in>L. \<forall>y\<in>L. pallet_of w x = pallet_of w y
                  \<longrightarrow> pallet_of ?w' x = pallet_of ?w' y"
      using m2 unfolding eq .
    show ?thesis by (intro exI [of _ "remove1 b ps"] exI [of _ ?w'] conjI res well_formed' ld' j mono)
  qed
qed

lemma sweep_rule:
  fixes I :: "ref list \<Rightarrow> world \<Rightarrow> bool" and Q :: "edge \<Rightarrow> world \<Rightarrow> bool"
  assumes draws: "log_returns E beta"
    and step: "\<And>e ps w. I ps w \<Longrightarrow> e \<in> A \<Longrightarrow>
             \<exists>ps' w'. merge_body E e ps (w\<lparr>rng_pos := Suc (rng_pos w)\<rparr>) = Inr (ps', w')
                     \<and> I ps' w' \<and> Q e w' \<and> (\<forall>e'\<in>A. Q e' w \<longrightarrow> Q e' w')"
  shows "I ps w \<Longrightarrow> set arr \<subseteq> A \<Longrightarrow> n = length arr \<Longrightarrow>
         \<exists>ps' w'. sweep E beta n arr ps w = Inr (ps', w') \<and> I ps' w'
                 \<and> (\<forall>e\<in>set arr. Q e w') \<and> (\<forall>e'\<in>A. Q e' w \<longrightarrow> Q e' w')"
proof (induction n arbitrary: arr ps w)
  case 0
  then show ?case by simp
next
  case (Suc n)
  then have ne: "arr \<noteq> []" by auto
  let ?u = "random E (rng_pos w)"
  let ?i = "nat (py_int (fdiv E (flog E ?u) (flog E (fsub E 1 beta))) mod int (length arr))"
  have u: "0 < ?u" and b: "0 < fsub E 1 beta" and l: "flog E (fsub E 1 beta) \<noteq> 0"
    using draws by (simp_all add: log_returns_def)
  have nx: "bra_next E beta ?u arr = Inr (arr ! ?i, pop arr ?i)"
    by (rule bra_next_in_range(1) [OF u b l ne])
  have lt: "?i < length arr"
    by (rule bra_next_in_range(2) [OF u b l ne])
  have mem: "arr ! ?i \<in> set arr" using lt by simp
  have sets: "set arr = insert (arr ! ?i) (set (pop arr ?i))"
  proof -
    have "set_mset (add_mset (arr ! ?i) (mset (pop arr ?i))) = set_mset (mset arr)"
      using mset_pop [OF lt] by simp
    then show ?thesis by simp
  qed
  have len: "n = length (pop arr ?i)" using Suc.prems(3) lt by (simp add: length_pop)
  from step [OF Suc.prems(1), of "arr ! ?i"] mem Suc.prems(2) obtain ps1 w1
    where m: "merge_body E (arr ! ?i) ps (w\<lparr>rng_pos := Suc (rng_pos w)\<rparr>) = Inr (ps1, w1)"
      and i1: "I ps1 w1" and q1: "Q (arr ! ?i) w1"
      and k1: "\<forall>e'\<in>A. Q e' w \<longrightarrow> Q e' w1"
    by blast
  have "set (pop arr ?i) \<subseteq> A" using sets Suc.prems(2) by auto
  from Suc.IH [OF i1 this len] obtain ps' w'
    where r: "sweep E beta n (pop arr ?i) ps1 w1 = Inr (ps', w')"
      and i': "I ps' w'" and q': "\<forall>e\<in>set (pop arr ?i). Q e w'"
      and k': "\<forall>e'\<in>A. Q e' w1 \<longrightarrow> Q e' w'"
    by blast
  have "sweep E beta (Suc n) arr ps w = Inr (ps', w')" using nx m r by simp
  moreover have "\<forall>e\<in>set arr. Q e w'"
  proof
    fix e assume "e \<in> set arr"
    then consider "e = arr ! ?i" | "e \<in> set (pop arr ?i)" using sets by auto
    then show "Q e w'"
    proof cases
      case 1
      then show ?thesis using q1 k' mem Suc.prems(2) by auto
    next
      case 2
      then show ?thesis using q' by simp
    qed
  qed
  moreover have "\<forall>e'\<in>A. Q e' w \<longrightarrow> Q e' w'" using k1 k' by blast
  ultimately show ?case using i' by blast
qed

lemma single_pallet:
  assumes well_formed: "well_formed L ps w" and ne: "L \<noteq> {}"
    and all: "\<forall>x\<in>L. \<forall>y\<in>L. pallet_of w x = pallet_of w y"
  shows "\<exists>p. ps = [p] \<and> orderlines (heap w p) = L"
proof -
  from ne obtain x0 where x0: "x0 \<in> L" by auto
  with well_formed obtain p0 where p0: "p0 \<in> set ps" "pallet_of w x0 = Some p0"
    by (auto elim: wf_bound)
  have only: "q = p0" if "q \<in> set ps" for q
  proof -
    have "orderlines (heap w q) \<noteq> {}" using well_formed that by (simp add: well_formed_def)
    then obtain y where y: "y \<in> orderlines (heap w q)" by auto
    then have "y \<in> L" "pallet_of w y = Some q" using well_formed that by (auto simp: well_formed_def)
    moreover from this(1) x0 all have "pallet_of w y = pallet_of w x0" by blast
    ultimately show ?thesis using p0(2) by simp
  qed
  have dist: "distinct ps" using well_formed by (simp add: well_formed_def)
  have "set ps = {p0}"
  proof
    show "set ps \<subseteq> {p0}" using only by blast
    show "{p0} \<subseteq> set ps" using p0(1) by simp
  qed
  then have "length ps = 1" using dist by (simp add: distinct_card [symmetric])
  then obtain a where "ps = [a]" by (cases ps) auto
  then have ps: "ps = [p0]" using p0(1) by simp
  have "orderlines (heap w p0) = L"
  proof
    show "orderlines (heap w p0) \<subseteq> L" using well_formed p0(1) by (auto simp: well_formed_def)
    show "L \<subseteq> orderlines (heap w p0)"
    proof
      fix x assume "x \<in> L"
      with well_formed obtain q where "q \<in> set ps" "x \<in> orderlines (heap w q)"
        by (auto elim: wf_bound)
      then show "x \<in> orderlines (heap w p0)" using only [of q] by simp
    qed
  qed
  then show ?thesis using ps by blast
qed

text \<open>
  On distinct order lines whose construction succeeds, with edges between these order
  lines, \<^verbatim>\<open>heuristic\<close> returns: every execution of the loop body starts in a
  well-formed state, so that no attribute is read before it is assigned and no pallet is
  removed that is not in the working list; the returned list is well formed.
\<close>

lemma heuristic_returns:
  assumes dist: "distinct (s_orderlines S)"
    and ends: "\<forall>e\<in>set (s_edges S). origin e \<in> set (s_orderlines S)
                                  \<and> endp e \<in> set (s_orderlines S)"
    and singles: "\<forall>ol\<in>set (s_orderlines S).
        fst (dubePacker E (Pallet E (pallet_size S) (pallet_max_weight S)) (Inl ol))"
    and draws: "log_returns E beta"
  shows "\<exists>solution w'. heuristic E S beta w = Inr (solution, w')
           \<and> well_formed (set (s_orderlines S)) solution w'"
proof -
  let ?L = "set (s_orderlines S)"
  let ?A = "set (s_edges S)"
  from build_all_wf [OF wf_empty dist _ singles, of w] obtain ps0 w0
    where b: "build_all E S (s_orderlines S) [] w = Inr (ps0, w0)"
      and i0: "well_formed ?L ps0 w0"
    by auto
  have step: "\<exists>ps' w'. merge_body E e ps (w\<lparr>rng_pos := Suc (rng_pos w)\<rparr>) = Inr (ps', w')
                     \<and> well_formed ?L ps' w' \<and> True \<and> (\<forall>e'\<in>?A. True \<longrightarrow> True)"
    if "well_formed ?L ps w" "e \<in> ?A" for e ps w
  proof -
    have "well_formed ?L ps (w\<lparr>rng_pos := Suc (rng_pos w)\<rparr>)" using that(1) by simp
    moreover have "origin e \<in> ?L" "endp e \<in> ?L" using ends that(2) by auto
    ultimately show ?thesis using merge_body_wf [of ?L ps _ e E] by blast
  qed
  have "set (savingsList S) \<subseteq> ?A" by (simp add: savingsList_def)
  from sweep_rule [where I = "well_formed ?L" and Q = "\<lambda>e w. True" and A = ?A,
      OF draws step i0 this refl]
  obtain ps' w'
    where "sweep E beta (length (savingsList S)) (savingsList S) ps0 w0 = Inr (ps', w')"
      and "well_formed ?L ps' w'"
    by blast
  then show ?thesis using b by (auto simp: heuristic_def)
qed

lemma sort_orderlines_keys:
  assumes "distinct (map fst (layersMap p))"
  shows "mset (sort_orderlines p) = mset (map fst (layersMap p))"
proof -
  have "dict_of (sort_key snd (layersMap p)) = sort_key snd (layersMap p)"
    using assms by (intro dict_of_distinct distinct_keys_sort)
  then show ?thesis by (simp add: sort_orderlines_def)
qed

lemma list_of_length_4:
  assumes "length vs = 4"
  obtains v1 v2 v3 v4 where "vs = [v1, v2, v3, v4]"
proof -
  from assms obtain v1 r1 where "vs = v1 # r1" "length r1 = 3" by (cases vs) auto
  moreover then obtain v2 r2 where "r1 = v2 # r2" "length r2 = 2" by (cases r1) auto
  moreover then obtain v3 r3 where "r2 = v3 # r3" "length r3 = 1" by (cases r2) auto
  moreover then obtain v4 where "r3 = [v4]" by (cases r3) auto
  ultimately show ?thesis using that by simp
qed

lemma route_cost_4:
  "spec_route_cost d [v1, v2, v3, v4] =
     d ! 0 ! location v1 + d ! location v1 ! location v2 + d ! location v2 ! location v3
     + d ! location v3 ! location v4 + d ! location v4 ! 0"
  by (simp add: spec_route_cost_def eval_nat_numeral lessThan_Suc)

lemma loaded_empty: "loaded E S [] w"
  by (simp add: loaded_def)

lemma heuristic_one_pallet:
  assumes dist: "distinct (s_orderlines S)" and ne: "s_orderlines S \<noteq> []"
    and ends: "\<forall>e\<in>set (s_edges S). origin e \<in> set (s_orderlines S)
                                  \<and> endp e \<in> set (s_orderlines S)"
    and complete: "\<forall>a\<in>set (s_orderlines S). \<forall>b\<in>set (s_orderlines S). a \<noteq> b \<longrightarrow>
        (\<exists>e\<in>set (s_edges S). (origin e = a \<and> endp e = b) \<or> (origin e = b \<and> endp e = a))"
    and nonneg: "\<forall>ol\<in>set (s_orderlines S). 0 \<le> ol_weight ol \<and> 0 \<le> ol_volume ol"
    and fits: "(\<Sum>ol\<leftarrow>s_orderlines S. ol_weight ol) \<le> pallet_max_weight S"
      "(\<Sum>ol\<leftarrow>s_orderlines S. ol_volume ol) \<le> sizeVolume E (pallet_size S)"
    and pk: "always_succeeds E"
    and draws: "log_returns E beta"
  shows "\<exists>p w'. heuristic E S beta w = Inr ([p], w')
           \<and> orderlines (heap w' p) = set (s_orderlines S)
           \<and> (assigns_layers E \<longrightarrow> consistent (heap w' p))"
proof -
  let ?L = "set (s_orderlines S)"
  let ?A = "set (s_edges S)"
  let ?I = "\<lambda>ps w. well_formed ?L ps w \<and> loaded E S ps w"
  have fin: "finite ?L" by simp
  have fitsL: "sum ol_weight ?L \<le> pallet_max_weight S"
    "sum ol_volume ?L \<le> sizeVolume E (pallet_size S)"
    using fits dist by (simp_all add: sum_list_distinct_conv_sum_set)
  from build_all_loaded [OF wf_empty loaded_empty pk dist, of S w] obtain ps0 w0
    where b: "build_all E S (s_orderlines S) [] w = Inr (ps0, w0)"
      and i0: "?I ps0 w0"
    by auto
  have step: "\<exists>ps' w'. merge_body E e ps (w\<lparr>rng_pos := Suc (rng_pos w)\<rparr>) = Inr (ps', w')
                     \<and> ?I ps' w' \<and> joined e w' \<and> (\<forall>e'\<in>?A. joined e' w \<longrightarrow> joined e' w')"
    if "?I ps w" "e \<in> ?A" for e ps w
  proof -
    let ?w = "w\<lparr>rng_pos := Suc (rng_pos w)\<rparr>"
    have well_formed: "well_formed ?L ps ?w" and ld: "loaded E S ps ?w" using that(1) by simp_all
    have e: "origin e \<in> ?L" "endp e \<in> ?L" using ends that(2) by auto
    from merge_body_full [OF well_formed fin ld pk e nonneg fitsL] obtain ps' w'
      where r: "merge_body E e ps ?w = Inr (ps', w')"
        and i: "well_formed ?L ps' w'" "loaded E S ps' w'" and j: "joined e w'"
        and m: "\<forall>x\<in>?L. \<forall>y\<in>?L. pallet_of ?w x = pallet_of ?w y
                  \<longrightarrow> pallet_of w' x = pallet_of w' y"
      by blast
    have "\<forall>e'\<in>?A. joined e' w \<longrightarrow> joined e' w'"
    proof (intro ballI impI)
      fix e' assume "e' \<in> ?A" "joined e' w"
      then have "origin e' \<in> ?L" "endp e' \<in> ?L" "pallet_of ?w (origin e') = pallet_of ?w (endp e')"
        using ends by (auto simp: joined_def)
      then show "joined e' w'" using m unfolding joined_def by blast
    qed
    then show ?thesis using r i j by blast
  qed
  have "set (savingsList S) \<subseteq> ?A" by (simp add: savingsList_def)
  from sweep_rule [where I = ?I and Q = joined and A = ?A, OF draws step i0 this refl]
  obtain ps' w'
    where s: "sweep E beta (length (savingsList S)) (savingsList S) ps0 w0 = Inr (ps', w')"
      and i': "well_formed ?L ps' w'" "loaded E S ps' w'"
      and j': "\<forall>e\<in>set (savingsList S). joined e w'"
    by blast
  have all: "\<forall>x\<in>?L. \<forall>y\<in>?L. pallet_of w' x = pallet_of w' y"
  proof (intro ballI)
    fix x y assume xy: "x \<in> ?L" "y \<in> ?L"
    show "pallet_of w' x = pallet_of w' y"
    proof (cases "x = y")
      case True
      then show ?thesis by simp
    next
      case False
      with complete xy obtain e where "e \<in> ?A"
        "(origin e = x \<and> endp e = y) \<or> (origin e = y \<and> endp e = x)" by blast
      moreover from this(1) have "joined e w'" using j' by (simp add: savingsList_def)
      ultimately show ?thesis by (auto simp: joined_def)
    qed
  qed
  have "?L \<noteq> {}" using ne by simp
  from single_pallet [OF i'(1) this all] obtain p
    where p: "ps' = [p]" "orderlines (heap w' p) = ?L" by blast
  have "heuristic E S beta w = Inr ([p], w')" using b s p(1) by (simp add: heuristic_def)
  moreover have "assigns_layers E \<longrightarrow> consistent (heap w' p)"
    using i'(2) p(1) by (simp add: loaded_def)
  ultimately show ?thesis using p(2) by blast
qed

lemma keys_shift_filter:
  "map (fst \<circ> (\<lambda>(k, l). (k, l + n))) (filter (\<lambda>(k, l). P k) xs) = filter P (map fst xs)"
  by (induction xs) auto

lemma ex_packer_keys:
  "map fst (snd (snd (ex_packer c payload))) =
     map fst (layersMap c)
     @ filter (\<lambda>k. k \<notin> set (map fst (layersMap c)))
         (case payload of Inl ol \<Rightarrow> [ol] | Inr p \<Rightarrow> map fst (layersMap p))"
proof -
  have "map fst (snd (snd (ex_packer c payload))) =
     map fst (layersMap c)
     @ filter (\<lambda>k. k \<notin> fst ` set (layersMap c))
         (map fst (case payload of Inl ol \<Rightarrow> [(ol, 0)] | Inr p \<Rightarrow> layersMap p))"
    by (simp add: ex_packer_def Let_def keys_shift_filter)
  then show ?thesis by (cases payload) simp_all
qed

lemma ex_always_succeeds: "always_succeeds ex_env"
  by (simp add: always_succeeds_def ex_env_def ex_packer_def Let_def)

lemma ex_assigns_layers: "assigns_layers ex_env"
  unfolding assigns_layers_def
proof (intro conjI allI impI)
  fix c ol assume "consistent c"
  then show "distinct (map fst (snd (snd (dubePacker ex_env c (Inl ol)))))"
    by (simp add: ex_env_def ex_packer_keys consistent_def)
next
  fix c ol assume "consistent c"
  then show "set (map fst (snd (snd (dubePacker ex_env c (Inl ol))))) = insert ol (orderlines c)"
    by (auto simp: ex_env_def ex_packer_keys consistent_def)
next
  fix c p assume "consistent c \<and> consistent p"
  then show "distinct (map fst (snd (snd (dubePacker ex_env c (Inr p)))))"
    by (auto simp: ex_env_def ex_packer_keys consistent_def)
next
  fix c p assume "consistent c \<and> consistent p"
  then show "set (map fst (snd (snd (dubePacker ex_env c (Inr p))))) = orderlines c \<union> orderlines p"
    by (auto simp: ex_env_def ex_packer_keys consistent_def)
qed

text \<open>
  C4. Four order lines at the locations 1, 2, 3 and 4 (the depot is location 0), edges
  between order lines of the solver with at least one edge between every two of them,
  weights and volumes that are not negative and fit one pallet all together, a packing
  procedure that always succeeds, and a stream of draws for which every call of
  \<^verbatim>\<open>math.log\<close> returns (every draw is above 0; the float \<^verbatim>\<open>1.0 - 0.9999\<close> is positive
  and its logarithm is not zero): for every such stream of draws and from every world,
  \<^verbatim>\<open>heuristic(0.9999)\<close> returns exactly one pallet, which holds the four order lines.
  When the packing procedure assigns a layer to the order lines it packs and the distance
  matrix has the rows and columns 0 to 4, the visiting order derived from the layer
  assignment of that pallet visits each of the four order lines once, and \<^verbatim>\<open>getCost\<close> of
  the solution adds, in the arithmetic of the matrix, the distance from the depot to the
  first location and from the last location back to the depot, and the running sum of the
  three consecutive legs; when these additions are exact this is the sum of the five
  distances along the route. Neither the sign of the savings nor the number of cases of an
  order line is needed.
\<close>

theorem C4_end_to_end:
  assumes locs: "map location (s_orderlines S) = [1, 2, 3, 4]"
    and ends: "\<forall>e\<in>set (s_edges S). origin e \<in> set (s_orderlines S)
                                  \<and> endp e \<in> set (s_orderlines S)"
    and complete: "\<forall>a\<in>set (s_orderlines S). \<forall>b\<in>set (s_orderlines S). a \<noteq> b \<longrightarrow>
        (\<exists>e\<in>set (s_edges S). (origin e = a \<and> endp e = b) \<or> (origin e = b \<and> endp e = a))"
    and nonneg: "\<forall>ol\<in>set (s_orderlines S). 0 \<le> ol_weight ol \<and> 0 \<le> ol_volume ol"
    and fits: "(\<Sum>ol\<leftarrow>s_orderlines S. ol_weight ol) \<le> pallet_max_weight S"
      "(\<Sum>ol\<leftarrow>s_orderlines S. ol_volume ol) \<le> sizeVolume E (pallet_size S)"
    and pk: "always_succeeds E"
    and draws: "log_returns E GREEDY_BETA"
  shows "\<exists>p w'. heuristic E S GREEDY_BETA w = Inr ([p], w')
           \<and> orderlines (heap w' p) = set (s_orderlines S)
           \<and> (assigns_layers E \<and> list_all (in_matrix (s_dists S)) [0, 1, 2, 3, 4] \<longrightarrow>
               (\<exists>v1 v2 v3 v4.
                 sort_orderlines (heap w' p) = [v1, v2, v3, v4]
                 \<and> distinct [v1, v2, v3, v4]
                 \<and> set [v1, v2, v3, v4] = set (s_orderlines S)
                 \<and> getCost E (map (heap w') [p]) (s_dists S) =
                     Inr (num_add E
                            (num_add E 0
                               (num_add E (s_dists S ! 0 ! location v1)
                                          (s_dists S ! location v4 ! 0)))
                            (num_add E
                               (num_add E
                                  (num_add E 0 (s_dists S ! location v1 ! location v2))
                                  (s_dists S ! location v2 ! location v3))
                               (s_dists S ! location v3 ! location v4)))
                 \<and> (exact_on E (map (heap w') [p]) (s_dists S) \<longrightarrow>
                      getCost E (map (heap w') [p]) (s_dists S) =
                        Inr (s_dists S ! 0 ! location v1
                             + s_dists S ! location v1 ! location v2
                             + s_dists S ! location v2 ! location v3
                             + s_dists S ! location v3 ! location v4
                             + s_dists S ! location v4 ! 0))))"
proof -
  let ?L = "set (s_orderlines S)"
  let ?d = "s_dists S"
  have "distinct (map location (s_orderlines S))" using locs by simp
  then have dist: "distinct (s_orderlines S)" by (simp add: distinct_map)
  have "length (map location (s_orderlines S)) = 4" using locs by simp
  then have len: "length (s_orderlines S) = 4" by simp
  then have ne: "s_orderlines S \<noteq> []" by auto
  from heuristic_one_pallet [OF dist ne ends complete nonneg fits pk draws, of w]
  obtain p w' where h: "heuristic E S GREEDY_BETA w = Inr ([p], w')"
    and ols: "orderlines (heap w' p) = ?L"
    and con: "assigns_layers E \<longrightarrow> consistent (heap w' p)"
    by blast
  let ?lm = "layersMap (heap w' p)"
  let ?vs = "sort_orderlines (heap w' p)"
  have route: "\<exists>v1 v2 v3 v4.
                 ?vs = [v1, v2, v3, v4]
                 \<and> distinct [v1, v2, v3, v4]
                 \<and> set [v1, v2, v3, v4] = ?L
                 \<and> getCost E (map (heap w') [p]) ?d =
                     Inr (num_add E
                            (num_add E 0
                               (num_add E (?d ! 0 ! location v1) (?d ! location v4 ! 0)))
                            (num_add E
                               (num_add E
                                  (num_add E 0 (?d ! location v1 ! location v2))
                                  (?d ! location v2 ! location v3))
                               (?d ! location v3 ! location v4)))
                 \<and> (exact_on E (map (heap w') [p]) ?d \<longrightarrow>
                      getCost E (map (heap w') [p]) ?d =
                        Inr (?d ! 0 ! location v1
                             + ?d ! location v1 ! location v2
                             + ?d ! location v2 ! location v3
                             + ?d ! location v3 ! location v4
                             + ?d ! location v4 ! 0))"
    if al: "assigns_layers E" and mat: "list_all (in_matrix ?d) [0, 1, 2, 3, 4]"
  proof -
    have keys: "distinct (map fst ?lm)" "set (map fst ?lm) = ?L"
      using con al ols by (simp_all add: consistent_def)
    have ms: "mset ?vs = mset (map fst ?lm)" using keys(1) by (rule sort_orderlines_keys)
    have dvs: "distinct ?vs" using ms keys(1) by (metis mset_eq_imp_distinct_iff)
    have svs: "set ?vs = ?L" using ms keys(2) by (metis mset_eq_setD)
    have "length ?vs = card ?L" using dvs svs by (metis distinct_card)
    also have "\<dots> = 4" using dist len by (simp add: distinct_card)
    finally obtain v1 v2 v3 v4 where vs: "?vs = [v1, v2, v3, v4]"
      by (rule list_of_length_4)
    have nonempty: "?lm \<noteq> []" using keys(2) ne by auto
    have depot: "in_matrix ?d 0" using mat by simp
    have inL: "in_matrix ?d (location ol)" if "ol \<in> ?L" for ol
    proof -
      have "location ol \<in> set (map location (s_orderlines S))" using that by simp
      then have "location ol \<in> {1, 2, 3, 4}" unfolding locs by simp
      then show ?thesis using mat by auto
    qed
    have valid: "\<forall>ol\<in>set ?vs. in_matrix ?d (location ol)"
      using inL svs by simp
    have vne: "?vs \<noteq> []" using vs by simp
    have "getCost_loop E 0 [heap w' p] ?d =
            Inr (num_add E
                   (num_add E 0
                      (num_add E (?d ! 0 ! location v1) (?d ! location v4 ! 0)))
                   (num_add E
                      (num_add E
                         (num_add E 0 (?d ! location v1 ! location v2))
                         (?d ! location v2 ! location v3))
                      (?d ! location v3 ! location v4)))"
      unfolding getCost_loop_step [OF vne valid depot] by (simp add: vs)
    then have cost: "getCost E (map (heap w') [p]) ?d =
            Inr (num_add E
                   (num_add E 0
                      (num_add E (?d ! 0 ! location v1) (?d ! location v4 ! 0)))
                   (num_add E
                      (num_add E
                         (num_add E 0 (?d ! location v1 ! location v2))
                         (?d ! location v2 ! location v3))
                      (?d ! location v3 ! location v4)))"
      by (simp add: getCost_def)
    have exact: "getCost E (map (heap w') [p]) ?d =
                        Inr (?d ! 0 ! location v1
                             + ?d ! location v1 ! location v2
                             + ?d ! location v2 ! location v3
                             + ?d ! location v3 ! location v4
                             + ?d ! location v4 ! 0)"
      if x: "exact_on E (map (heap w') [p]) ?d"
    proof -
      have hyp: "\<forall>q\<in>set [heap w' p]. layersMap q \<noteq> [] \<and> distinct (map fst (layersMap q))
             \<and> (\<forall>ol\<in>fst ` set (layersMap q). in_matrix ?d (location ol))"
        using nonempty keys inL by simp
      have adds: "list_all (\<lambda>(x, y). num_add E x y = x + y) (additions 0 [heap w' p] ?d)"
        using x by (simp add: exact_on_def)
      have "getCost E [heap w' p] ?d = Inr (spec_cost [heap w' p] ?d)"
        using getCost_loop_spec [OF hyp depot adds] by (simp add: getCost_def)
      also have "spec_cost [heap w' p] ?d = spec_route_cost ?d ?vs"
        using sort_orderlines_spec [OF keys(1)] by (simp add: spec_cost_def)
      finally show ?thesis by (simp add: vs route_cost_4)
    qed
    have "distinct [v1, v2, v3, v4]" "set [v1, v2, v3, v4] = ?L"
      using dvs svs unfolding vs by simp_all
    then show ?thesis using vs cost exact by blast
  qed
  show ?thesis using h ols route by blast
qed

theorem C4_end_to_end_witness:
  "map location (s_orderlines ex_solver4) = [1, 2, 3, 4]
   \<and> list_all (\<lambda>e. origin e \<in> set (s_orderlines ex_solver4)
                  \<and> endp e \<in> set (s_orderlines ex_solver4) \<and> 0 < saving e) (s_edges ex_solver4)
   \<and> list_all (\<lambda>ol. length (ol_cases ol) = 1) (s_orderlines ex_solver4)
   \<and> (\<Sum>ol\<leftarrow>s_orderlines ex_solver4. ol_weight ol) \<le> pallet_max_weight ex_solver4
   \<and> (\<Sum>ol\<leftarrow>s_orderlines ex_solver4. ol_volume ol)
        \<le> sizeVolume ex_env (pallet_size ex_solver4)
   \<and> always_succeeds ex_env \<and> log_returns ex_env GREEDY_BETA \<and> assigns_layers ex_env
   \<and> list_all (in_matrix (s_dists ex_solver4)) [0, 1, 2, 3, 4]
   \<and> (\<exists>p w'. heuristic ex_env ex_solver4 GREEDY_BETA ex_world = Inr ([p], w')
           \<and> orderlines (heap w' p) = set (s_orderlines ex_solver4)
           \<and> (\<exists>v1 v2 v3 v4.
                 sort_orderlines (heap w' p) = [v1, v2, v3, v4]
                 \<and> distinct [v1, v2, v3, v4]
                 \<and> set [v1, v2, v3, v4] = set (s_orderlines ex_solver4)
                 \<and> getCost ex_env (map (heap w') [p]) (s_dists ex_solver4) =
                     Inr (s_dists ex_solver4 ! 0 ! location v1
                          + s_dists ex_solver4 ! location v1 ! location v2
                          + s_dists ex_solver4 ! location v2 ! location v3
                          + s_dists ex_solver4 ! location v3 ! location v4
                          + s_dists ex_solver4 ! location v4 ! 0)))"
proof -
  have locs: "map location (s_orderlines ex_solver4) = [1, 2, 3, 4]"
    by (simp add: ex_solver4_def ex_line_def)
  have ends: "\<forall>e\<in>set (s_edges ex_solver4). origin e \<in> set (s_orderlines ex_solver4)
                                  \<and> endp e \<in> set (s_orderlines ex_solver4)"
    by (simp add: ex_solver4_def ex_edge_def)
  have pos: "\<forall>e\<in>set (s_edges ex_solver4). 0 < saving e"
    by (simp add: ex_solver4_def ex_edge_def)
  have one: "\<forall>ol\<in>set (s_orderlines ex_solver4). length (ol_cases ol) = 1"
    by (simp add: ex_solver4_def ex_line_def)
  have complete: "\<forall>a\<in>set (s_orderlines ex_solver4). \<forall>b\<in>set (s_orderlines ex_solver4). a \<noteq> b \<longrightarrow>
        (\<exists>e\<in>set (s_edges ex_solver4). (origin e = a \<and> endp e = b) \<or> (origin e = b \<and> endp e = a))"
    by (simp add: ex_solver4_def ex_edge_def ex_line_def)
  have nonneg: "\<forall>ol\<in>set (s_orderlines ex_solver4). 0 \<le> ol_weight ol \<and> 0 \<le> ol_volume ol"
    by (simp add: ex_solver4_def ex_line_def)
  have fits: "(\<Sum>ol\<leftarrow>s_orderlines ex_solver4. ol_weight ol) \<le> pallet_max_weight ex_solver4"
    "(\<Sum>ol\<leftarrow>s_orderlines ex_solver4. ol_volume ol) \<le> sizeVolume ex_env (pallet_size ex_solver4)"
    by (simp_all add: ex_solver4_def ex_line_def ex_env_def)
  have draws: "log_returns ex_env GREEDY_BETA"
    by (simp add: log_returns_def ex_env_def GREEDY_BETA_def)
  have mat: "list_all (in_matrix (s_dists ex_solver4)) [0, 1, 2, 3, 4]"
    by (simp add: in_matrix_def ex_solver4_def)
  have plus: "num_add ex_env = (\<lambda>x y. x + y)" by (simp add: ex_env_def)
  from C4_end_to_end [OF locs ends complete nonneg fits ex_always_succeeds draws, of ex_world]
  obtain p w' where h: "heuristic ex_env ex_solver4 GREEDY_BETA ex_world = Inr ([p], w')"
    and o: "orderlines (heap w' p) = set (s_orderlines ex_solver4)"
    and c: "assigns_layers ex_env \<and> list_all (in_matrix (s_dists ex_solver4)) [0, 1, 2, 3, 4] \<longrightarrow>
               (\<exists>v1 v2 v3 v4.
                 sort_orderlines (heap w' p) = [v1, v2, v3, v4]
                 \<and> distinct [v1, v2, v3, v4]
                 \<and> set [v1, v2, v3, v4] = set (s_orderlines ex_solver4)
                 \<and> getCost ex_env (map (heap w') [p]) (s_dists ex_solver4) =
                     Inr (num_add ex_env
                            (num_add ex_env 0
                               (num_add ex_env (s_dists ex_solver4 ! 0 ! location v1)
                                          (s_dists ex_solver4 ! location v4 ! 0)))
                            (num_add ex_env
                               (num_add ex_env
                                  (num_add ex_env 0 (s_dists ex_solver4 ! location v1 ! location v2))
                                  (s_dists ex_solver4 ! location v2 ! location v3))
                               (s_dists ex_solver4 ! location v3 ! location v4)))
                 \<and> (exact_on ex_env (map (heap w') [p]) (s_dists ex_solver4) \<longrightarrow>
                      getCost ex_env (map (heap w') [p]) (s_dists ex_solver4) =
                        Inr (s_dists ex_solver4 ! 0 ! location v1
                             + s_dists ex_solver4 ! location v1 ! location v2
                             + s_dists ex_solver4 ! location v2 ! location v3
                             + s_dists ex_solver4 ! location v3 ! location v4
                             + s_dists ex_solver4 ! location v4 ! 0)))"
    by blast
  from c ex_assigns_layers mat obtain v1 v2 v3 v4
    where v: "sort_orderlines (heap w' p) = [v1, v2, v3, v4]"
        "distinct [v1, v2, v3, v4]"
        "set [v1, v2, v3, v4] = set (s_orderlines ex_solver4)"
      and g: "getCost ex_env (map (heap w') [p]) (s_dists ex_solver4) =
                     Inr (num_add ex_env
                            (num_add ex_env 0
                               (num_add ex_env (s_dists ex_solver4 ! 0 ! location v1)
                                          (s_dists ex_solver4 ! location v4 ! 0)))
                            (num_add ex_env
                               (num_add ex_env
                                  (num_add ex_env 0 (s_dists ex_solver4 ! location v1 ! location v2))
                                  (s_dists ex_solver4 ! location v2 ! location v3))
                               (s_dists ex_solver4 ! location v3 ! location v4)))"
    by blast
  have g': "getCost ex_env (map (heap w') [p]) (s_dists ex_solver4) =
                     Inr (s_dists ex_solver4 ! 0 ! location v1
                          + s_dists ex_solver4 ! location v1 ! location v2
                          + s_dists ex_solver4 ! location v2 ! location v3
                          + s_dists ex_solver4 ! location v3 ! location v4
                          + s_dists ex_solver4 ! location v4 ! 0)"
    unfolding g plus by simp
  have hyps: "map location (s_orderlines ex_solver4) = [1, 2, 3, 4]
   \<and> list_all (\<lambda>e. origin e \<in> set (s_orderlines ex_solver4)
                  \<and> endp e \<in> set (s_orderlines ex_solver4) \<and> 0 < saving e) (s_edges ex_solver4)
   \<and> list_all (\<lambda>ol. length (ol_cases ol) = 1) (s_orderlines ex_solver4)
   \<and> (\<Sum>ol\<leftarrow>s_orderlines ex_solver4. ol_weight ol) \<le> pallet_max_weight ex_solver4
   \<and> (\<Sum>ol\<leftarrow>s_orderlines ex_solver4. ol_volume ol)
        \<le> sizeVolume ex_env (pallet_size ex_solver4)"
    using locs ends pos one fits by (simp add: list_all_iff)
  show ?thesis
    by (intro conjI exI [of _ p] exI [of _ w'] exI [of _ v1] exI [of _ v2] exI [of _ v3]
          exI [of _ v4] h o v g' ex_always_succeeds draws ex_assigns_layers mat
          hyps [THEN conjunct1] hyps [THEN conjunct2, THEN conjunct1]
          hyps [THEN conjunct2, THEN conjunct2, THEN conjunct1]
          hyps [THEN conjunct2, THEN conjunct2, THEN conjunct2, THEN conjunct1]
          hyps [THEN conjunct2, THEN conjunct2, THEN conjunct2, THEN conjunct2])
qed

text \<open>
  Not every sequence of draws and not every packing procedure that always succeeds gives
  one pallet with a cost. With draws of \<open>0.0\<close>, which \<^verbatim>\<open>random.random()\<close> may return,
  \<^verbatim>\<open>math.log\<close> raises in the first step of the selector and \<^verbatim>\<open>heuristic(0.9999)\<close>
  returns no pallet. With a packing procedure that reports success and returns an empty
  layer assignment, \<^verbatim>\<open>heuristic(0.9999)\<close> returns one pallet and \<^verbatim>\<open>getCost\<close> raises on
  it, as it has no first order line to visit.
\<close>

theorem C4_zero_draw_or_blank_layers:
  "heuristic ex_zero_env ex_solver4 GREEDY_BETA ex_world = Inl ValueError
   \<and> \<not> isl (heuristic ex_blank_env ex_solver4 GREEDY_BETA ex_world)
   \<and> length (fst (projr (heuristic ex_blank_env ex_solver4 GREEDY_BETA ex_world))) = 1
   \<and> getCost ex_blank_env
        (map (heap (snd (projr (heuristic ex_blank_env ex_solver4 GREEDY_BETA ex_world))))
           (fst (projr (heuristic ex_blank_env ex_solver4 GREEDY_BETA ex_world))))
        (s_dists ex_solver4) = Inl IndexError"
proof -
  have z: "heuristic ex_zero_env ex_solver4 GREEDY_BETA ex_world = Inl ValueError"
    by (simp add: heuristic_def savingsList_def ex_solver4_def ex_zero_env_def ex_env_def
          ex_world_def build_pallet_cases Pallet_def ex_packer_def ex_line_def ex_edge_def
          bra_next_def py_log_def upd_def Let_def)
  have "\<exists>w'. heuristic ex_blank_env ex_solver4 GREEDY_BETA ex_world = Inr ([0], w')
             \<and> layersMap (heap w' 0) = []"
    by (simp add: heuristic_def savingsList_def ex_solver4_def ex_blank_env_def ex_env_def
          ex_world_def build_pallet_cases Pallet_def ex_line_def ex_edge_def
          GREEDY_BETA_def bra_next_def py_log_def py_int_def pop_def merge_body_cases
          absorb_cases merge_into_def repoint_def upd_def Let_def)
  then obtain p w' where h: "heuristic ex_blank_env ex_solver4 GREEDY_BETA ex_world = Inr ([p], w')"
    and l: "layersMap (heap w' p) = []"
    by blast
  have "sort_orderlines (heap w' p) = []"
    using l by (simp add: sort_orderlines_def dict_of_def)
  then have "getCost ex_blank_env [heap w' p] (s_dists ex_solver4) = Inl IndexError"
    by (simp add: getCost_def)
  then show ?thesis using z h by simp
qed

section \<open>The search driver and its history\<close>

lemma build_pallet_history:
  "build_pallet E S ol ps w = Inr (ps', w') \<Longrightarrow>
     history w' = history w \<and> clock_pos w' = clock_pos w"
  by (auto simp: build_pallet_cases split: if_splits)

lemma build_all_history:
  "build_all E S ols ps w = Inr (ps', w') \<Longrightarrow>
     history w' = history w \<and> clock_pos w' = clock_pos w"
proof (induction ols arbitrary: ps w)
  case Nil
  then show ?case by simp
next
  case (Cons ol ols)
  from Cons.prems obtain ps1 w1
    where b: "build_pallet E S ol ps w = Inr (ps1, w1)"
      and r: "build_all E S ols ps1 w1 = Inr (ps', w')"
    by (auto split: sum.splits)
  show ?case using build_pallet_history [OF b] Cons.IH [OF r] by simp
qed

lemma absorb_history:
  "absorb h d pc lm ps w = Inr (ps', w') \<Longrightarrow>
     history w' = history w \<and> clock_pos w' = clock_pos w"
  by (auto simp: absorb_cases split: if_splits)

lemma merge_body_history:
  assumes "merge_body E e ps w = Inr (ps', w')"
  shows "history w' = history w \<and> clock_pos w' = clock_pos w"
proof -
  from assms obtain a b
    where a: "pallet_of w (origin e) = Some a" and b: "pallet_of w (endp e) = Some b"
    by (auto simp: merge_body_def split: option.splits)
  show ?thesis
    using assms unfolding merge_body_cases [OF a b]
    by (auto split: if_splits dest!: absorb_history)
qed

lemma sweep_history:
  "sweep E beta n arr ps w = Inr (ps', w') \<Longrightarrow>
     history w' = history w \<and> clock_pos w' = clock_pos w"
proof (induction n arbitrary: arr ps w)
  case 0
  then show ?case by simp
next
  case (Suc n)
  from Suc.prems obtain e arr' ps1 w1
    where m: "merge_body E e ps (w\<lparr>rng_pos := Suc (rng_pos w)\<rparr>) = Inr (ps1, w1)"
      and r: "sweep E beta n arr' ps1 w1 = Inr (ps', w')"
    by (auto split: sum.splits)
  show ?case using merge_body_history [OF m] Suc.IH [OF r] by simp
qed

lemma heuristic_history:
  assumes "heuristic E S beta w = Inr (sol, w')"
  shows "history w' = history w \<and> clock_pos w' = clock_pos w"
proof -
  from assms obtain ps w1
    where b: "build_all E S (s_orderlines S) [] w = Inr (ps, w1)"
      and s: "sweep E beta (length (savingsList S)) (savingsList S) ps w1 = Inr (sol, w')"
    by (auto simp: heuristic_def split: sum.splits)
  show ?thesis using build_all_history [OF b] sweep_history [OF s] by simp
qed


lemma search_post_step:
  assumes "search_post c (iterations + 1) (w2\<lparr>history := history w2 @ [c]\<rparr>) r"
    and "history w2 = history w" and "c \<le> bestcost"
  shows "search_post bestcost iterations w r"
proof (cases r)
  case (Inl e)
  then show ?thesis by (simp add: search_post_def)
next
  case (Inr x)
  obtain best' bestcost' iterations' w' where x: "x = ((best', bestcost', iterations'), w')"
    by (cases x) auto
  from assms(1) obtain hs
    where hs: "history w' = (history w2 @ [c]) @ hs" "iterations' = iterations + 1 + length hs"
      "sorted_wrt (\<ge>) (c # hs)" "bestcost' = last (c # hs)"
    by (auto simp: search_post_def Inr x)
  have "history w' = history w @ (c # hs)" using hs(1) assms(2) by simp
  moreover have "iterations' = iterations + length (c # hs)" using hs(2) by simp
  moreover have "sorted_wrt (\<ge>) (bestcost # c # hs)"
    using hs(3) assms(3) by auto
  moreover have "bestcost' = last (bestcost # c # hs)" using hs(4) by simp
  ultimately show ?thesis unfolding search_post_def Inr x by (simp del: last.simps)
qed

lemma search_history:
  assumes "search E S maxtime betarange start best bestcost iterations w = Some r"
  shows "search_post bestcost iterations w r"
  using assms
proof (rule search.raw_induct [rotated 1,
      where P = "\<lambda>E S maxtime betarange start best bestcost iterations w r.
                   search_post bestcost iterations w r"], goal_cases)
  case (1 f E S maxtime betarange start best bestcost iterations w r)
  note IH = 1(1) and body = 1(2)
  let ?w0 = "w\<lparr>clock_pos := Suc (clock_pos w)\<rparr>"
  let ?w1 = "?w0\<lparr>rng_pos := Suc (rng_pos ?w0)\<rparr>"
  let ?beta = "uniform betarange (random E (rng_pos ?w0))"
  show ?case
  proof (cases "time E (clock_pos w) - start < maxtime")
    case False
    then have "r = Inr ((best, bestcost, iterations), ?w0)" using body by (simp add: Let_def)
    then show ?thesis by (simp add: search_post_def)
  next
    case time: True
    show ?thesis
    proof (cases "heuristic E S ?beta ?w1")
      case (Inl e)
      then have "r = Inl e" using body time by (simp add: Let_def)
      then show ?thesis by (simp add: search_post_def)
    next
      case (Inr x)
      obtain newsol w2 where x: "x = (newsol, w2)" by (cases x)
      have h: "history w2 = history w"
        using heuristic_history [of E S ?beta ?w1 newsol w2] Inr x by simp
      show ?thesis
      proof (cases "getCost E (map (heap w2) newsol) (s_dists S)")
        case (Inl e)
        then have "r = Inl e" using body time Inr x by (simp add: Let_def)
        then show ?thesis by (simp add: search_post_def)
      next
        case cost: (Inr newcost)
        show ?thesis
        proof (cases "newcost < bestcost")
          case True
          then have "f E S maxtime betarange start newsol newcost (iterations + 1)
                       (w2\<lparr>history := history w2 @ [newcost]\<rparr>) = Some r"
            using body time Inr x cost by (simp add: Let_def)
          then have "search_post newcost (iterations + 1) (w2\<lparr>history := history w2 @ [newcost]\<rparr>) r"
            by (rule IH)
          then show ?thesis by (rule search_post_step) (use h True in simp_all)
        next
          case False
          then have "f E S maxtime betarange start best bestcost (iterations + 1)
                       (w2\<lparr>history := history w2 @ [bestcost]\<rparr>) = Some r"
            using body time Inr x cost by (simp add: Let_def)
          then have "search_post bestcost (iterations + 1) (w2\<lparr>history := history w2 @ [bestcost]\<rparr>) r"
            by (rule IH)
          then show ?thesis by (rule search_post_step) (use h in simp_all)
        qed
      qed
    qed
  qed
qed

lemmas ex_eval =
  uniform_def GREEDY_BETA_def getCost_def sort_orderlines_def dict_of_def
  heuristic_def savingsList_def ex_solver2_def ex_env_def ex_world_def
  build_pallet_cases Pallet_def ex_packer_def ex_line_def ex_edge_def
  bra_next_def py_log_def py_int_def pop_def merge_body_cases absorb_cases dists_at_def
  merge_into_def repoint_def upd_def Let_def

lemma ex_call_runs:
  "\<exists>best c w'. call ex_env ex_solver2 2 (0.1, 0.3) ex_world = Some (Inr ((best, c, 1), w'))"
  by (simp add: call_def search.simps [where iterations = 0]
      search.simps [where iterations = "Suc 0"] search.simps [where iterations = 1] ex_eval)

lemma ex_call_twice:
  "\<exists>best c w' best2 c2 w''.
      call ex_env ex_solver2 2 (0.1, 0.3) ex_world = Some (Inr ((best, c, 1), w'))
      \<and> call ex_env ex_solver2 2 (0.1, 0.3) w' = Some (Inr ((best2, c2, 1), w''))"
  by (simp add: call_def search.simps [where iterations = 0]
      search.simps [where iterations = "Suc 0"] search.simps [where iterations = 1] ex_eval)

lemma ex_step_runs:
  "\<exists>newsol v2 newcost.
      heuristic ex_env ex_solver2 (uniform (0.1, 0.3) (random ex_env (rng_pos ex_world)))
        (ex_world\<lparr>clock_pos := Suc (clock_pos ex_world), rng_pos := Suc (rng_pos ex_world)\<rparr>)
        = Inr (newsol, v2)
      \<and> getCost ex_env (map (heap v2) newsol) (s_dists ex_solver2) = Inr newcost \<and> newcost = 4"
  by (simp add: ex_eval)

text \<open>
  C7. When \<^verbatim>\<open>__call__\<close> returns, the history has grown by exactly one entry for each
  iteration counted, the entries recorded by the call never increase, the first of them
  is at most the cost of the seeding solution, and the returned best cost is the last
  entry (the seed cost when there was no iteration). One iteration of the loop replaces
  the best solution and cost exactly when the new cost is strictly lower, and appends the
  best cost it ends with, and nothing else, to the history.
\<close>

theorem C7_driver_monotone:
  "(call E S maxtime betarange w = Some (Inr ((best, bestcost, iterations), w')) \<longrightarrow>
      (\<exists>best0 w1 seed hs.
          heuristic E S GREEDY_BETA w = Inr (best0, w1)
          \<and> getCost E (map (heap w1) best0) (s_dists S) = Inr seed
          \<and> history w' = history w @ hs \<and> length hs = iterations
          \<and> sorted_wrt (\<ge>) (seed # hs)
          \<and> bestcost = last (seed # hs)))
   \<and> (time E (clock_pos v) - start < maxtime
       \<and> heuristic E S (uniform betarange (random E (rng_pos v)))
            (v\<lparr>clock_pos := Suc (clock_pos v), rng_pos := Suc (rng_pos v)\<rparr>) = Inr (newsol, v2)
       \<and> getCost E (map (heap v2) newsol) (s_dists S) = Inr newcost \<longrightarrow>
       search E S maxtime betarange start cur curcost n v =
         search E S maxtime betarange start
           (if newcost < curcost then newsol else cur)
           (if newcost < curcost then newcost else curcost) (n + 1)
           (v2\<lparr>history := history v2 @ [if newcost < curcost then newcost else curcost]\<rparr>))"
proof (intro conjI impI)
  assume c: "call E S maxtime betarange w = Some (Inr ((best, bestcost, iterations), w'))"
  then obtain best0 w1 where h: "heuristic E S GREEDY_BETA w = Inr (best0, w1)"
    by (auto simp: call_def split: sum.splits)
  with c obtain seed where g: "getCost E (map (heap w1) best0) (s_dists S) = Inr seed"
    by (auto simp: call_def split: sum.splits)
  from c h g have "search E S maxtime betarange (time E (clock_pos w1)) best0 seed 0
                     (w1\<lparr>clock_pos := Suc (clock_pos w1)\<rparr>)
                   = Some (Inr ((best, bestcost, iterations), w'))"
    by (simp add: call_def)
  then have "search_post seed 0 (w1\<lparr>clock_pos := Suc (clock_pos w1)\<rparr>)
               (Inr ((best, bestcost, iterations), w'))"
    by (rule search_history)
  then obtain hs where "history w' = history w1 @ hs" "iterations = length hs"
    "sorted_wrt (\<ge>) (seed # hs)" "bestcost = last (seed # hs)"
    by (auto simp: search_post_def)
  moreover have "history w1 = history w" using heuristic_history [OF h] by simp
  ultimately show "\<exists>best0 w1 seed hs.
          heuristic E S GREEDY_BETA w = Inr (best0, w1)
          \<and> getCost E (map (heap w1) best0) (s_dists S) = Inr seed
          \<and> history w' = history w @ hs \<and> length hs = iterations
          \<and> sorted_wrt (\<ge>) (seed # hs)
          \<and> bestcost = last (seed # hs)"
    using h g by auto
next
  assume "time E (clock_pos v) - start < maxtime
       \<and> heuristic E S (uniform betarange (random E (rng_pos v)))
            (v\<lparr>clock_pos := Suc (clock_pos v), rng_pos := Suc (rng_pos v)\<rparr>) = Inr (newsol, v2)
       \<and> getCost E (map (heap v2) newsol) (s_dists S) = Inr newcost"
  then show "search E S maxtime betarange start cur curcost n v =
         search E S maxtime betarange start
           (if newcost < curcost then newsol else cur)
           (if newcost < curcost then newcost else curcost) (n + 1)
           (v2\<lparr>history := history v2 @ [if newcost < curcost then newcost else curcost]\<rparr>)"
    by (subst search.simps) (simp add: Let_def)
qed

theorem C7_driver_monotone_witness:
  "(\<exists>best c w' best0 w1 seed hs.
      call ex_env ex_solver2 2 (0.1, 0.3) ex_world = Some (Inr ((best, c, 1), w'))
      \<and> heuristic ex_env ex_solver2 GREEDY_BETA ex_world = Inr (best0, w1)
      \<and> getCost ex_env (map (heap w1) best0) (s_dists ex_solver2) = Inr seed
      \<and> history w' = history ex_world @ hs \<and> length hs = 1
      \<and> sorted_wrt (\<ge>) (seed # hs) \<and> c = last (seed # hs))
   \<and> (\<exists>newsol v2 newcost.
      time ex_env (clock_pos ex_world) - 0 < 2
      \<and> heuristic ex_env ex_solver2 (uniform (0.1, 0.3) (random ex_env (rng_pos ex_world)))
           (ex_world\<lparr>clock_pos := Suc (clock_pos ex_world), rng_pos := Suc (rng_pos ex_world)\<rparr>)
           = Inr (newsol, v2)
      \<and> getCost ex_env (map (heap v2) newsol) (s_dists ex_solver2) = Inr newcost
      \<and> search ex_env ex_solver2 2 (0.1, 0.3) 0 [] 5 0 ex_world =
           search ex_env ex_solver2 2 (0.1, 0.3) 0 newsol newcost 1
             (v2\<lparr>history := history v2 @ [newcost]\<rparr>))"
proof
  from ex_call_runs obtain best c w'
    where c: "call ex_env ex_solver2 2 (0.1, 0.3) ex_world = Some (Inr ((best, c, 1), w'))"
    by blast
  from C7_driver_monotone [where E = ex_env and S = ex_solver2 and maxtime = 2
      and betarange = "(0.1, 0.3)" and w = ex_world and best = best and bestcost = c
      and iterations = 1 and w' = w', THEN conjunct1, rule_format, OF c] c
  show "\<exists>best c w' best0 w1 seed hs.
      call ex_env ex_solver2 2 (0.1, 0.3) ex_world = Some (Inr ((best, c, 1), w'))
      \<and> heuristic ex_env ex_solver2 GREEDY_BETA ex_world = Inr (best0, w1)
      \<and> getCost ex_env (map (heap w1) best0) (s_dists ex_solver2) = Inr seed
      \<and> history w' = history ex_world @ hs \<and> length hs = 1
      \<and> sorted_wrt (\<ge>) (seed # hs) \<and> c = last (seed # hs)"
    by blast
next
  from ex_step_runs obtain newsol v2 newcost
    where s: "heuristic ex_env ex_solver2 (uniform (0.1, 0.3) (random ex_env (rng_pos ex_world)))
        (ex_world\<lparr>clock_pos := Suc (clock_pos ex_world), rng_pos := Suc (rng_pos ex_world)\<rparr>)
        = Inr (newsol, v2)"
      "getCost ex_env (map (heap v2) newsol) (s_dists ex_solver2) = Inr newcost" "newcost = 4"
    by blast
  have t: "time ex_env (clock_pos ex_world) - 0 < 2" by (simp add: ex_env_def ex_world_def)
  from C7_driver_monotone [of ex_env ex_solver2 2 "(0.1, 0.3)" ex_world "[]" 0 0 ex_world
      ex_world 0 newsol v2 newcost "[]" 5 0] s t
  have "search ex_env ex_solver2 2 (0.1, 0.3) 0 [] 5 0 ex_world =
           search ex_env ex_solver2 2 (0.1, 0.3) 0 newsol newcost 1
             (v2\<lparr>history := history v2 @ [newcost]\<rparr>)"
    by simp
  then show "\<exists>newsol v2 newcost.
      time ex_env (clock_pos ex_world) - 0 < 2
      \<and> heuristic ex_env ex_solver2 (uniform (0.1, 0.3) (random ex_env (rng_pos ex_world)))
           (ex_world\<lparr>clock_pos := Suc (clock_pos ex_world), rng_pos := Suc (rng_pos ex_world)\<rparr>)
           = Inr (newsol, v2)
      \<and> getCost ex_env (map (heap v2) newsol) (s_dists ex_solver2) = Inr newcost
      \<and> search ex_env ex_solver2 2 (0.1, 0.3) 0 [] 5 0 ex_world =
           search ex_env ex_solver2 2 (0.1, 0.3) 0 newsol newcost 1
             (v2\<lparr>history := history v2 @ [newcost]\<rparr>)"
    using s t by blast
qed

text \<open>
  C10. \<^verbatim>\<open>__call__\<close> only appends to the history: when it returns the iteration count
  \<open>n\<close>, the history is the history before the call followed by \<open>n\<close> new entries, so the
  earlier entries are unchanged, the cost of the seeding solution is not recorded (no
  iteration, no new entry), and after two calls in a row the history is the first history
  followed by the entries of the first call and then by those of the second.
\<close>

theorem C10_history_persists:
  "(call E S maxtime betarange w = Some (Inr ((best, bestcost, n), w')) \<longrightarrow>
      (\<exists>hs. history w' = history w @ hs \<and> length hs = n)
      \<and> length (history w') = length (history w) + n
      \<and> take (length (history w)) (history w') = history w
      \<and> (n = 0 \<longrightarrow> history w' = history w))
   \<and> (call E S maxtime betarange w = Some (Inr ((best, bestcost, n), w'))
       \<and> call E S maxtime2 betarange2 w' = Some (Inr ((best2, bestcost2, n2), w'')) \<longrightarrow>
      (\<exists>hs hs2. history w'' = history w @ hs @ hs2 \<and> length hs = n \<and> length hs2 = n2))"
proof -
  have grow: "\<exists>hs. history v' = history v @ hs \<and> length hs = k"
    if c: "call E S mt br v = Some (Inr ((b, bc, k), v'))" for mt br v b bc k v'
  proof -
    from c obtain best0 w1 where h: "heuristic E S GREEDY_BETA v = Inr (best0, w1)"
      by (auto simp: call_def split: sum.splits)
    with c obtain seed where g: "getCost E (map (heap w1) best0) (s_dists S) = Inr seed"
      by (auto simp: call_def split: sum.splits)
    from c h g have "search E S mt br (time E (clock_pos w1)) best0 seed 0
                     (w1\<lparr>clock_pos := Suc (clock_pos w1)\<rparr>) = Some (Inr ((b, bc, k), v'))"
      by (simp add: call_def)
    then have "search_post seed 0 (w1\<lparr>clock_pos := Suc (clock_pos w1)\<rparr>) (Inr ((b, bc, k), v'))"
      by (rule search_history)
    then obtain hs where "history v' = history w1 @ hs" "k = length hs"
      by (auto simp: search_post_def)
    moreover have "history w1 = history v" using heuristic_history [OF h] by simp
    ultimately show ?thesis by auto
  qed
  have one: "(\<exists>hs. history w' = history w @ hs \<and> length hs = n)
      \<and> length (history w') = length (history w) + n
      \<and> take (length (history w)) (history w') = history w
      \<and> (n = 0 \<longrightarrow> history w' = history w)"
    if "call E S maxtime betarange w = Some (Inr ((best, bestcost, n), w'))"
  proof -
    from grow [OF that] obtain hs where hs: "history w' = history w @ hs" "length hs = n"
      by blast
    then show ?thesis by auto
  qed
  have two: "\<exists>hs hs2. history w'' = history w @ hs @ hs2 \<and> length hs = n \<and> length hs2 = n2"
    if "call E S maxtime betarange w = Some (Inr ((best, bestcost, n), w'))"
      and "call E S maxtime2 betarange2 w' = Some (Inr ((best2, bestcost2, n2), w''))"
  proof -
    from grow [OF that(1)] obtain hs where hs: "history w' = history w @ hs" "length hs = n"
      by blast
    from grow [OF that(2)] obtain hs2 where hs2: "history w'' = history w' @ hs2" "length hs2 = n2"
      by blast
    have "history w'' = history w @ hs @ hs2" using hs(1) hs2(1) by simp
    then show ?thesis using hs(2) hs2(2) by blast
  qed
  show ?thesis using one two by blast
qed

theorem C10_history_persists_witness:
  "\<exists>best c w' best2 c2 w'' hs hs2.
      call ex_env ex_solver2 2 (0.1, 0.3) ex_world = Some (Inr ((best, c, 1), w'))
      \<and> call ex_env ex_solver2 2 (0.1, 0.3) w' = Some (Inr ((best2, c2, 1), w''))
      \<and> length (history w') = length (history ex_world) + 1
      \<and> take (length (history ex_world)) (history w') = history ex_world
      \<and> history w'' = history ex_world @ hs @ hs2 \<and> length hs = 1 \<and> length hs2 = 1"
proof -
  from ex_call_twice obtain best c w' best2 c2 w''
    where c: "call ex_env ex_solver2 2 (0.1, 0.3) ex_world = Some (Inr ((best, c, 1), w'))"
      "call ex_env ex_solver2 2 (0.1, 0.3) w' = Some (Inr ((best2, c2, 1), w''))"
    by blast
  note t = C10_history_persists [where E = ex_env and S = ex_solver2 and maxtime = 2
      and betarange = "(0.1, 0.3)" and w = ex_world and best = best and bestcost = c
      and n = 1 and w' = w' and ?maxtime2.0 = 2 and ?betarange2.0 = "(0.1, 0.3)"
      and ?best2.0 = best2 and ?bestcost2.0 = c2 and ?n2.0 = 1 and w'' = w'']
  from t [THEN conjunct1, rule_format, OF c(1)]
  have a: "length (history w') = length (history ex_world) + 1"
    "take (length (history ex_world)) (history w') = history ex_world"
    by simp_all
  from t [THEN conjunct2, rule_format, OF conjI [OF c]]
  obtain hs hs2 where "history w'' = history ex_world @ hs @ hs2" "length hs = 1" "length hs2 = 1"
    by blast
  then show ?thesis using c a by blast
qed

end
